theory Spec2Isabelle
  imports Main "HOL-Library.Word"
begin

section \<open>wc: counting lines, words, characters, bad sequences and bytes\<close>

text \<open>
  A shallow embedding of \<^verbatim>\<open>src/wc/wc.go\<close>. Bytes are 8-bit words, the five
  counters are 64-bit words (Go's \<^verbatim>\<open>uint64\<close>, so \<open>+\<close> and \<open>-\<close> wrap), the
  sixteen action constants are a datatype, and the four 256-entry arrays are lists
  indexed by the value of the byte.
\<close>

type_synonym byte = "8 word"
type_synonym uint64 = "64 word"

text \<open>
  The size of the read buffer. One \<^verbatim>\<open>Read\<close> delivers at most this many bytes; the
  counts do not depend on it.
\<close>

definition NBUF :: nat where
  "NBUF = 8 * 1024"

subsection \<open>Counters\<close>

record counter =
  lines :: uint64
  words :: uint64
  chars :: uint64
  errors :: uint64
  bytes :: uint64

subsection \<open>Actions and the four tables\<close>

datatype action =
    AC2   \<comment> \<open>enter statec2\<close>
  | AC2R  \<comment> \<open>enter statec2, don't count a rune\<close>
  | AC2W  \<comment> \<open>enter statec2, count a word\<close>
  | AC2X  \<comment> \<open>enter statec2, count a bad rune\<close>
  | AC3   \<comment> \<open>enter statec3\<close>
  | AC3W  \<comment> \<open>enter statec3, count a word\<close>
  | AC3X  \<comment> \<open>enter statec3, count a bad rune\<close>
  | ASP   \<comment> \<open>enter statesp\<close>
  | ASPN  \<comment> \<open>enter statesp, count a newline\<close>
  | ASPNX \<comment> \<open>enter statesp, count a newline, count a bad rune\<close>
  | ASPX  \<comment> \<open>enter statesp, count a bad rune\<close>
  | AWD   \<comment> \<open>enter statewd\<close>
  | AWDR  \<comment> \<open>enter statewd, don't count a rune\<close>
  | AWDW  \<comment> \<open>enter statewd, count a word\<close>
  | AWDWX \<comment> \<open>enter statewd, count a word, count a bad rune\<close>
  | AWDX  \<comment> \<open>enter statewd, count a bad rune\<close>

definition statesp :: "action list" where \<comment> \<open>looking for the start of a word\<close>
  "statesp = [
    AWDW, AWDW, AWDW, AWDW, AWDW, AWDW, AWDW, AWDW, \<comment> \<open>00-07\<close>
    AWDW, ASP, ASPN, AWDW, AWDW, AWDW, AWDW, AWDW, \<comment> \<open>08-0f\<close>
    AWDW, AWDW, AWDW, AWDW, AWDW, AWDW, AWDW, AWDW, \<comment> \<open>10-17\<close>
    AWDW, AWDW, AWDW, AWDW, AWDW, AWDW, AWDW, AWDW, \<comment> \<open>18-1f\<close>
    ASP, AWDW, AWDW, AWDW, AWDW, AWDW, AWDW, AWDW, \<comment> \<open>20-27\<close>
    AWDW, AWDW, AWDW, AWDW, AWDW, AWDW, AWDW, AWDW, \<comment> \<open>28-2f\<close>
    AWDW, AWDW, AWDW, AWDW, AWDW, AWDW, AWDW, AWDW, \<comment> \<open>30-37\<close>
    AWDW, AWDW, AWDW, AWDW, AWDW, AWDW, AWDW, AWDW, \<comment> \<open>38-3f\<close>
    AWDW, AWDW, AWDW, AWDW, AWDW, AWDW, AWDW, AWDW, \<comment> \<open>40-47\<close>
    AWDW, AWDW, AWDW, AWDW, AWDW, AWDW, AWDW, AWDW, \<comment> \<open>48-4f\<close>
    AWDW, AWDW, AWDW, AWDW, AWDW, AWDW, AWDW, AWDW, \<comment> \<open>50-57\<close>
    AWDW, AWDW, AWDW, AWDW, AWDW, AWDW, AWDW, AWDW, \<comment> \<open>58-5f\<close>
    AWDW, AWDW, AWDW, AWDW, AWDW, AWDW, AWDW, AWDW, \<comment> \<open>60-67\<close>
    AWDW, AWDW, AWDW, AWDW, AWDW, AWDW, AWDW, AWDW, \<comment> \<open>68-6f\<close>
    AWDW, AWDW, AWDW, AWDW, AWDW, AWDW, AWDW, AWDW, \<comment> \<open>70-77\<close>
    AWDW, AWDW, AWDW, AWDW, AWDW, AWDW, AWDW, AWDW, \<comment> \<open>78-7f\<close>
    AWDWX, AWDWX, AWDWX, AWDWX, AWDWX, AWDWX, AWDWX, AWDWX, \<comment> \<open>80-87\<close>
    AWDWX, AWDWX, AWDWX, AWDWX, AWDWX, AWDWX, AWDWX, AWDWX, \<comment> \<open>88-8f\<close>
    AWDWX, AWDWX, AWDWX, AWDWX, AWDWX, AWDWX, AWDWX, AWDWX, \<comment> \<open>90-97\<close>
    AWDWX, AWDWX, AWDWX, AWDWX, AWDWX, AWDWX, AWDWX, AWDWX, \<comment> \<open>98-9f\<close>
    AWDWX, AWDWX, AWDWX, AWDWX, AWDWX, AWDWX, AWDWX, AWDWX, \<comment> \<open>a0-a7\<close>
    AWDWX, AWDWX, AWDWX, AWDWX, AWDWX, AWDWX, AWDWX, AWDWX, \<comment> \<open>a8-af\<close>
    AWDWX, AWDWX, AWDWX, AWDWX, AWDWX, AWDWX, AWDWX, AWDWX, \<comment> \<open>b0-b7\<close>
    AWDWX, AWDWX, AWDWX, AWDWX, AWDWX, AWDWX, AWDWX, AWDWX, \<comment> \<open>b8-bf\<close>
    AC2W, AC2W, AC2W, AC2W, AC2W, AC2W, AC2W, AC2W, \<comment> \<open>c0-c7\<close>
    AC2W, AC2W, AC2W, AC2W, AC2W, AC2W, AC2W, AC2W, \<comment> \<open>c8-cf\<close>
    AC2W, AC2W, AC2W, AC2W, AC2W, AC2W, AC2W, AC2W, \<comment> \<open>d0-d7\<close>
    AC2W, AC2W, AC2W, AC2W, AC2W, AC2W, AC2W, AC2W, \<comment> \<open>d8-df\<close>
    AC3W, AC3W, AC3W, AC3W, AC3W, AC3W, AC3W, AC3W, \<comment> \<open>e0-e7\<close>
    AC3W, AC3W, AC3W, AC3W, AC3W, AC3W, AC3W, AC3W, \<comment> \<open>e8-ef\<close>
    AWDWX, AWDWX, AWDWX, AWDWX, AWDWX, AWDWX, AWDWX, AWDWX, \<comment> \<open>f0-f7\<close>
    AWDWX, AWDWX, AWDWX, AWDWX, AWDWX, AWDWX, AWDWX, AWDWX  \<comment> \<open>f8-ff\<close>
  ]"

definition statewd :: "action list" where \<comment> \<open>looking for the next character in a word\<close>
  "statewd = [
    AWD, AWD, AWD, AWD, AWD, AWD, AWD, AWD, \<comment> \<open>00-07\<close>
    AWD, ASP, ASPN, AWD, AWD, AWD, AWD, AWD, \<comment> \<open>08-0f\<close>
    AWD, AWD, AWD, AWD, AWD, AWD, AWD, AWD, \<comment> \<open>10-17\<close>
    AWD, AWD, AWD, AWD, AWD, AWD, AWD, AWD, \<comment> \<open>18-1f\<close>
    ASP, AWD, AWD, AWD, AWD, AWD, AWD, AWD, \<comment> \<open>20-27\<close>
    AWD, AWD, AWD, AWD, AWD, AWD, AWD, AWD, \<comment> \<open>28-2f\<close>
    AWD, AWD, AWD, AWD, AWD, AWD, AWD, AWD, \<comment> \<open>30-37\<close>
    AWD, AWD, AWD, AWD, AWD, AWD, AWD, AWD, \<comment> \<open>38-3f\<close>
    AWD, AWD, AWD, AWD, AWD, AWD, AWD, AWD, \<comment> \<open>40-47\<close>
    AWD, AWD, AWD, AWD, AWD, AWD, AWD, AWD, \<comment> \<open>48-4f\<close>
    AWD, AWD, AWD, AWD, AWD, AWD, AWD, AWD, \<comment> \<open>50-57\<close>
    AWD, AWD, AWD, AWD, AWD, AWD, AWD, AWD, \<comment> \<open>58-5f\<close>
    AWD, AWD, AWD, AWD, AWD, AWD, AWD, AWD, \<comment> \<open>60-67\<close>
    AWD, AWD, AWD, AWD, AWD, AWD, AWD, AWD, \<comment> \<open>68-6f\<close>
    AWD, AWD, AWD, AWD, AWD, AWD, AWD, AWD, \<comment> \<open>70-77\<close>
    AWD, AWD, AWD, AWD, AWD, AWD, AWD, AWD, \<comment> \<open>78-7f\<close>
    AWDX, AWDX, AWDX, AWDX, AWDX, AWDX, AWDX, AWDX, \<comment> \<open>80-87\<close>
    AWDX, AWDX, AWDX, AWDX, AWDX, AWDX, AWDX, AWDX, \<comment> \<open>88-8f\<close>
    AWDX, AWDX, AWDX, AWDX, AWDX, AWDX, AWDX, AWDX, \<comment> \<open>90-97\<close>
    AWDX, AWDX, AWDX, AWDX, AWDX, AWDX, AWDX, AWDX, \<comment> \<open>98-9f\<close>
    AWDX, AWDX, AWDX, AWDX, AWDX, AWDX, AWDX, AWDX, \<comment> \<open>a0-a7\<close>
    AWDX, AWDX, AWDX, AWDX, AWDX, AWDX, AWDX, AWDX, \<comment> \<open>a8-af\<close>
    AWDX, AWDX, AWDX, AWDX, AWDX, AWDX, AWDX, AWDX, \<comment> \<open>b0-b7\<close>
    AWDX, AWDX, AWDX, AWDX, AWDX, AWDX, AWDX, AWDX, \<comment> \<open>b8-bf\<close>
    AC2, AC2, AC2, AC2, AC2, AC2, AC2, AC2, \<comment> \<open>c0-c7\<close>
    AC2, AC2, AC2, AC2, AC2, AC2, AC2, AC2, \<comment> \<open>c8-cf\<close>
    AC2, AC2, AC2, AC2, AC2, AC2, AC2, AC2, \<comment> \<open>d0-d7\<close>
    AC2, AC2, AC2, AC2, AC2, AC2, AC2, AC2, \<comment> \<open>d8-df\<close>
    AC3, AC3, AC3, AC3, AC3, AC3, AC3, AC3, \<comment> \<open>e0-e7\<close>
    AC3, AC3, AC3, AC3, AC3, AC3, AC3, AC3, \<comment> \<open>e8-ef\<close>
    AWDX, AWDX, AWDX, AWDX, AWDX, AWDX, AWDX, AWDX, \<comment> \<open>f0-f7\<close>
    AWDX, AWDX, AWDX, AWDX, AWDX, AWDX, AWDX, AWDX  \<comment> \<open>f8-ff\<close>
  ]"

definition statec2 :: "action list" where \<comment> \<open>looking for 10xxxxxx to complete a rune\<close>
  "statec2 = [
    AWDX, AWDX, AWDX, AWDX, AWDX, AWDX, AWDX, AWDX, \<comment> \<open>00-07\<close>
    AWDX, ASPX, ASPNX, AWDX, AWDX, AWDX, AWDX, AWDX, \<comment> \<open>08-0f\<close>
    AWDX, AWDX, AWDX, AWDX, AWDX, AWDX, AWDX, AWDX, \<comment> \<open>10-17\<close>
    AWDX, AWDX, AWDX, AWDX, AWDX, AWDX, AWDX, AWDX, \<comment> \<open>18-1f\<close>
    ASPX, AWDX, AWDX, AWDX, AWDX, AWDX, AWDX, AWDX, \<comment> \<open>20-27\<close>
    AWDX, AWDX, AWDX, AWDX, AWDX, AWDX, AWDX, AWDX, \<comment> \<open>28-2f\<close>
    AWDX, AWDX, AWDX, AWDX, AWDX, AWDX, AWDX, AWDX, \<comment> \<open>30-37\<close>
    AWDX, AWDX, AWDX, AWDX, AWDX, AWDX, AWDX, AWDX, \<comment> \<open>38-3f\<close>
    AWDX, AWDX, AWDX, AWDX, AWDX, AWDX, AWDX, AWDX, \<comment> \<open>40-47\<close>
    AWDX, AWDX, AWDX, AWDX, AWDX, AWDX, AWDX, AWDX, \<comment> \<open>48-4f\<close>
    AWDX, AWDX, AWDX, AWDX, AWDX, AWDX, AWDX, AWDX, \<comment> \<open>50-57\<close>
    AWDX, AWDX, AWDX, AWDX, AWDX, AWDX, AWDX, AWDX, \<comment> \<open>58-5f\<close>
    AWDX, AWDX, AWDX, AWDX, AWDX, AWDX, AWDX, AWDX, \<comment> \<open>60-67\<close>
    AWDX, AWDX, AWDX, AWDX, AWDX, AWDX, AWDX, AWDX, \<comment> \<open>68-6f\<close>
    AWDX, AWDX, AWDX, AWDX, AWDX, AWDX, AWDX, AWDX, \<comment> \<open>70-77\<close>
    AWDX, AWDX, AWDX, AWDX, AWDX, AWDX, AWDX, AWDX, \<comment> \<open>78-7f\<close>
    AWDR, AWDR, AWDR, AWDR, AWDR, AWDR, AWDR, AWDR, \<comment> \<open>80-87\<close>
    AWDR, AWDR, AWDR, AWDR, AWDR, AWDR, AWDR, AWDR, \<comment> \<open>88-8f\<close>
    AWDR, AWDR, AWDR, AWDR, AWDR, AWDR, AWDR, AWDR, \<comment> \<open>90-97\<close>
    AWDR, AWDR, AWDR, AWDR, AWDR, AWDR, AWDR, AWDR, \<comment> \<open>98-9f\<close>
    AWDR, AWDR, AWDR, AWDR, AWDR, AWDR, AWDR, AWDR, \<comment> \<open>a0-a7\<close>
    AWDR, AWDR, AWDR, AWDR, AWDR, AWDR, AWDR, AWDR, \<comment> \<open>a8-af\<close>
    AWDR, AWDR, AWDR, AWDR, AWDR, AWDR, AWDR, AWDR, \<comment> \<open>b0-b7\<close>
    AWDR, AWDR, AWDR, AWDR, AWDR, AWDR, AWDR, AWDR, \<comment> \<open>b8-bf\<close>
    AC2X, AC2X, AC2X, AC2X, AC2X, AC2X, AC2X, AC2X, \<comment> \<open>c0-c7\<close>
    AC2X, AC2X, AC2X, AC2X, AC2X, AC2X, AC2X, AC2X, \<comment> \<open>c8-cf\<close>
    AC2X, AC2X, AC2X, AC2X, AC2X, AC2X, AC2X, AC2X, \<comment> \<open>d0-d7\<close>
    AC2X, AC2X, AC2X, AC2X, AC2X, AC2X, AC2X, AC2X, \<comment> \<open>d8-df\<close>
    AC3X, AC3X, AC3X, AC3X, AC3X, AC3X, AC3X, AC3X, \<comment> \<open>e0-e7\<close>
    AC3X, AC3X, AC3X, AC3X, AC3X, AC3X, AC3X, AC3X, \<comment> \<open>e8-ef\<close>
    AWDX, AWDX, AWDX, AWDX, AWDX, AWDX, AWDX, AWDX, \<comment> \<open>f0-f7\<close>
    AWDX, AWDX, AWDX, AWDX, AWDX, AWDX, AWDX, AWDX  \<comment> \<open>f8-ff\<close>
  ]"

definition statec3 :: "action list" where \<comment> \<open>looking for 10xxxxxx,10xxxxxx to complete a rune\<close>
  "statec3 = [
    AWDX, AWDX, AWDX, AWDX, AWDX, AWDX, AWDX, AWDX, \<comment> \<open>00-07\<close>
    AWDX, ASPX, ASPNX, AWDX, AWDX, AWDX, AWDX, AWDX, \<comment> \<open>08-0f\<close>
    AWDX, AWDX, AWDX, AWDX, AWDX, AWDX, AWDX, AWDX, \<comment> \<open>10-17\<close>
    AWDX, AWDX, AWDX, AWDX, AWDX, AWDX, AWDX, AWDX, \<comment> \<open>18-1f\<close>
    ASPX, AWDX, AWDX, AWDX, AWDX, AWDX, AWDX, AWDX, \<comment> \<open>20-27\<close>
    AWDX, AWDX, AWDX, AWDX, AWDX, AWDX, AWDX, AWDX, \<comment> \<open>28-2f\<close>
    AWDX, AWDX, AWDX, AWDX, AWDX, AWDX, AWDX, AWDX, \<comment> \<open>30-37\<close>
    AWDX, AWDX, AWDX, AWDX, AWDX, AWDX, AWDX, AWDX, \<comment> \<open>38-3f\<close>
    AWDX, AWDX, AWDX, AWDX, AWDX, AWDX, AWDX, AWDX, \<comment> \<open>40-47\<close>
    AWDX, AWDX, AWDX, AWDX, AWDX, AWDX, AWDX, AWDX, \<comment> \<open>48-4f\<close>
    AWDX, AWDX, AWDX, AWDX, AWDX, AWDX, AWDX, AWDX, \<comment> \<open>50-57\<close>
    AWDX, AWDX, AWDX, AWDX, AWDX, AWDX, AWDX, AWDX, \<comment> \<open>58-5f\<close>
    AWDX, AWDX, AWDX, AWDX, AWDX, AWDX, AWDX, AWDX, \<comment> \<open>60-67\<close>
    AWDX, AWDX, AWDX, AWDX, AWDX, AWDX, AWDX, AWDX, \<comment> \<open>68-6f\<close>
    AWDX, AWDX, AWDX, AWDX, AWDX, AWDX, AWDX, AWDX, \<comment> \<open>70-77\<close>
    AWDX, AWDX, AWDX, AWDX, AWDX, AWDX, AWDX, AWDX, \<comment> \<open>78-7f\<close>
    AC2R, AC2R, AC2R, AC2R, AC2R, AC2R, AC2R, AC2R, \<comment> \<open>80-87\<close>
    AC2R, AC2R, AC2R, AC2R, AC2R, AC2R, AC2R, AC2R, \<comment> \<open>88-8f\<close>
    AC2R, AC2R, AC2R, AC2R, AC2R, AC2R, AC2R, AC2R, \<comment> \<open>90-97\<close>
    AC2R, AC2R, AC2R, AC2R, AC2R, AC2R, AC2R, AC2R, \<comment> \<open>98-9f\<close>
    AC2R, AC2R, AC2R, AC2R, AC2R, AC2R, AC2R, AC2R, \<comment> \<open>a0-a7\<close>
    AC2R, AC2R, AC2R, AC2R, AC2R, AC2R, AC2R, AC2R, \<comment> \<open>a8-af\<close>
    AC2R, AC2R, AC2R, AC2R, AC2R, AC2R, AC2R, AC2R, \<comment> \<open>b0-b7\<close>
    AC2R, AC2R, AC2R, AC2R, AC2R, AC2R, AC2R, AC2R, \<comment> \<open>b8-bf\<close>
    AC2X, AC2X, AC2X, AC2X, AC2X, AC2X, AC2X, AC2X, \<comment> \<open>c0-c7\<close>
    AC2X, AC2X, AC2X, AC2X, AC2X, AC2X, AC2X, AC2X, \<comment> \<open>c8-cf\<close>
    AC2X, AC2X, AC2X, AC2X, AC2X, AC2X, AC2X, AC2X, \<comment> \<open>d0-d7\<close>
    AC2X, AC2X, AC2X, AC2X, AC2X, AC2X, AC2X, AC2X, \<comment> \<open>d8-df\<close>
    AC3X, AC3X, AC3X, AC3X, AC3X, AC3X, AC3X, AC3X, \<comment> \<open>e0-e7\<close>
    AC3X, AC3X, AC3X, AC3X, AC3X, AC3X, AC3X, AC3X, \<comment> \<open>e8-ef\<close>
    AWDX, AWDX, AWDX, AWDX, AWDX, AWDX, AWDX, AWDX, \<comment> \<open>f0-f7\<close>
    AWDX, AWDX, AWDX, AWDX, AWDX, AWDX, AWDX, AWDX  \<comment> \<open>f8-ff\<close>
  ]"

text \<open>
  The variable \<^verbatim>\<open>state\<close> of \<^verbatim>\<open>count\<close> is a slice over one of the four arrays;
  the model names the array it views.
\<close>

datatype state = Statesp | Statewd | Statec2 | Statec3

fun table :: "state \<Rightarrow> action list" where
  "table Statesp = statesp"
| "table Statewd = statewd"
| "table Statec2 = statec2"
| "table Statec3 = statec3"

subsection \<open>The stepping loop\<close>

text \<open>The \<^verbatim>\<open>switch\<close> of \<^verbatim>\<open>count\<close>: the new state and the updated counters.\<close>

fun act :: "action \<Rightarrow> counter \<Rightarrow> state \<times> counter" where
  "act AC2 n = (Statec2, n)"
| "act AC2R n = (Statec2, n\<lparr>chars := chars n - 1\<rparr>)"
| "act AC2W n = (Statec2, n\<lparr>words := words n + 1\<rparr>)"
| "act AC2X n = (Statec2, n\<lparr>errors := errors n + 1\<rparr>)"
| "act AC3 n = (Statec3, n)"
| "act AC3W n = (Statec3, n\<lparr>words := words n + 1\<rparr>)"
| "act AC3X n = (Statec3, n\<lparr>errors := errors n + 1\<rparr>)"
| "act ASP n = (Statesp, n)"
| "act ASPN n = (Statesp, n\<lparr>lines := lines n + 1\<rparr>)"
| "act ASPNX n = (Statesp, n\<lparr>lines := lines n + 1, errors := errors n + 1\<rparr>)"
| "act ASPX n = (Statesp, n\<lparr>errors := errors n + 1\<rparr>)"
| "act AWD n = (Statewd, n)"
| "act AWDR n = (Statewd, n\<lparr>chars := chars n - 1\<rparr>)"
| "act AWDW n = (Statewd, n\<lparr>words := words n + 1\<rparr>)"
| "act AWDWX n = (Statewd, n\<lparr>words := words n + 1, errors := errors n + 1\<rparr>)"
| "act AWDX n = (Statewd, n\<lparr>errors := errors n + 1\<rparr>)"

text \<open>One iteration of the inner loop: \<^verbatim>\<open>switch state[buf[i]]\<close>.\<close>

definition step :: "state \<Rightarrow> counter \<Rightarrow> byte \<Rightarrow> state \<times> counter" where
  "step st n b = act (table st ! unat b) n"

text \<open>The inner loop over the \<^verbatim>\<open>nr\<close> bytes of one chunk.\<close>

fun scan :: "state \<Rightarrow> counter \<Rightarrow> byte list \<Rightarrow> state \<times> counter" where
  "scan st n [] = (st, n)"
| "scan st n (b # bs) = (case step st n b of (st', n') \<Rightarrow> scan st' n' bs)"

subsection \<open>Reading a source\<close>

text \<open>
  One call of \<^verbatim>\<open>f.Read(buf[:])\<close> is modelled by what it delivers: the bytes it
  stored in the buffer and the error it returned, if any. Go's \<^verbatim>\<open>Read\<close> returns
  \<open>0 \<le> n \<le> len(buf)\<close>, so \<^verbatim>\<open>nr\<close> is the length of the delivered chunk. A file is
  its name and the results of the successive reads; when they are used up the source
  is exhausted and \<^verbatim>\<open>Read\<close> returns \<open>0\<close> bytes.
\<close>

datatype read_result = Read (chunk: "byte list") (er: "string option")

record os_file =
  fname :: string
  reads :: "read_result list"

text \<open>
  \<^verbatim>\<open>os.Exit(1)\<close> after a message on the error stream, or a run-time panic
  (\<^verbatim>\<open>er.Error()\<close> on a nil error).
\<close>

datatype halt = Exit1 string | Panic

definition newline :: char where
  "newline = CHR 0x0A"

text \<open>The outer \<^verbatim>\<open>for\<close> loop of \<^verbatim>\<open>count\<close>.\<close>

fun count_loop :: "state \<Rightarrow> counter \<Rightarrow> string \<Rightarrow> read_result list \<Rightarrow> halt + state \<times> counter" where
  "count_loop st n name [] = Inr (st, n)"
| "count_loop st n name (r # rs) =
     (let nr = int (length (chunk r)) in
      if nr = 0 then Inr (st, n)
      else if nr < 0 then
        (case er r of
           None \<Rightarrow> Inl Panic
         | Some e \<Rightarrow> Inl (Exit1 (''wc: error reading from '' @ name @ '': '' @ e @ [newline])))
      else
        (let n1 = n\<lparr>bytes := bytes n + word_of_int nr\<rparr>;
             n2 = n1\<lparr>chars := chars n1 + word_of_int nr\<rparr>
         in case scan st n2 (chunk r) of (st', n') \<Rightarrow> count_loop st' n' name rs))"

definition count :: "counter \<Rightarrow> os_file \<Rightarrow> halt + counter" where
  "count n f =
     (case count_loop Statesp
             (n\<lparr>lines := 0, words := 0, chars := 0, errors := 0, bytes := 0\<rparr>)
             (fname f) (reads f) of
        Inl h \<Rightarrow> Inl h
      | Inr (st, n') \<Rightarrow> Inr n')"

subsection \<open>Reporting\<close>

text \<open>The five flag variables, as \<^verbatim>\<open>report\<close> reads them.\<close>

record flags =
  lflag :: bool
  wflag :: bool
  cflag :: bool
  eflag :: bool
  bflag :: bool

definition digit :: "nat \<Rightarrow> char" where
  "digit d = ''0123456789'' ! d"

function decimal :: "nat \<Rightarrow> string" where
  "decimal k = (if k < 10 then [digit k] else decimal (k div 10) @ [digit (k mod 10)])"
  by pat_completeness auto
termination
  by (relation "measure id") auto

declare decimal.simps [simp del]

text \<open>\<^verbatim>\<open>fmt.Sprintf("%7d", v)\<close>: decimal, padded with spaces on the left to width 7.\<close>

definition sprintf_7d :: "uint64 \<Rightarrow> string" where
  "sprintf_7d v = (let d = decimal (unat v) in replicate (7 - length d) CHR '' '' @ d)"

definition report :: "flags \<Rightarrow> counter \<Rightarrow> string \<Rightarrow> string" where
  "report fl c name =
     (let s0 = [];
          s1 = (if lflag fl then s0 @ sprintf_7d (lines c) else s0);
          s2 = (if wflag fl then s1 @ sprintf_7d (words c) else s1);
          s3 = (if cflag fl then s2 @ sprintf_7d (chars c) else s2);
          s4 = (if eflag fl then s3 @ sprintf_7d (errors c) else s3);
          s5 = (if bflag fl then s4 @ sprintf_7d (bytes c) else s4)
      in s5 @ ('' '' @ name @ [newline]))"

subsection \<open>The program\<close>

text \<open>
  What \<^verbatim>\<open>flag.Parse\<close> leaves behind: for each of the five boolean flags the value
  the command line gave it (\<open>None\<close> when the flag was not given, so that the default
  \<^verbatim>\<open>false\<close> stays), and the remaining arguments.
\<close>

record cmdline =
  lopt :: "bool option"
  wopt :: "bool option"
  copt :: "bool option"
  eopt :: "bool option"
  bopt :: "bool option"
  args :: "string list"

definition flag_value :: "bool option \<Rightarrow> bool" where
  "flag_value v = (case v of None \<Rightarrow> False | Some x \<Rightarrow> x)"

definition parsed_flags :: "cmdline \<Rightarrow> flags" where
  "parsed_flags cl =
     \<lparr>lflag = flag_value (lopt cl), wflag = flag_value (wopt cl), cflag = flag_value (copt cl),
      eflag = flag_value (eopt cl), bflag = flag_value (bopt cl)\<rparr>"

definition NFlag :: "cmdline \<Rightarrow> nat" where
  "NFlag cl = length (filter (\<lambda>v. v \<noteq> None) [lopt cl, wopt cl, copt cl, eopt cl, bopt cl])"

definition NArg :: "cmdline \<Rightarrow> nat" where
  "NArg cl = length (args cl)"

text \<open>\<^verbatim>\<open>new(counter)\<close>: all five fields zero.\<close>

definition new_counter :: counter where
  "new_counter = \<lparr>lines = 0, words = 0, chars = 0, errors = 0, bytes = 0\<rparr>"

text \<open>
  \<^verbatim>\<open>os.Open\<close> is a function from a name to the error text or to the results of the
  reads of the opened file. What the run leaves behind is the text written to standard
  output and, when it did not return from \<^verbatim>\<open>main\<close> (exit status 0), how it halted.
\<close>

type_synonym filesys = "string \<Rightarrow> string + read_result list"

record run =
  stdout :: string
  halted :: "halt option"

text \<open>The \<^verbatim>\<open>for\<close> loop of \<^verbatim>\<open>main\<close> over the arguments.\<close>

fun files_loop ::
  "flags \<Rightarrow> filesys \<Rightarrow> counter \<Rightarrow> counter \<Rightarrow> string \<Rightarrow> string list \<Rightarrow> string \<times> (halt + counter \<times> counter)" where
  "files_loop fl fs n t out [] = (out, Inr (n, t))"
| "files_loop fl fs n t out (a # as) =
     (case fs a of
        Inl err \<Rightarrow> (out, Inl (Exit1 (''wc: can't open '' @ a @ '': error '' @ err @ [newline])))
      | Inr rs \<Rightarrow>
          (case count n \<lparr>fname = a, reads = rs\<rparr> of
             Inl h \<Rightarrow> (out, Inl h)
           | Inr n' \<Rightarrow>
               files_loop fl fs n'
                 (t\<lparr>lines := lines t + lines n', words := words t + words n',
                    chars := chars t + chars n', errors := errors t + errors n',
                    bytes := bytes t + bytes n'\<rparr>)
                 (out @ report fl n' a) as))"

definition main :: "cmdline \<Rightarrow> read_result list \<Rightarrow> filesys \<Rightarrow> run" where
  "main cl stdin fs =
     (let n = new_counter;
          t = new_counter;
          fl0 = parsed_flags cl;
          fl = (if NFlag cl = 0 then fl0\<lparr>lflag := True, wflag := True, cflag := True\<rparr> else fl0)
      in case (if NArg cl = 0
               then (case count n \<lparr>fname = ''/dev/stdin'', reads = stdin\<rparr> of
                       Inl h \<Rightarrow> Inl h
                     | Inr n' \<Rightarrow> Inr (n', report fl n' []))
               else Inr (n, [])) of
           Inl h \<Rightarrow> \<lparr>stdout = [], halted = Some h\<rparr>
         | Inr (n1, out1) \<Rightarrow>
             (case files_loop fl fs n1 t out1 (args cl) of
                (out2, Inl h) \<Rightarrow> \<lparr>stdout = out2, halted = Some h\<rparr>
              | (out2, Inr (n2, t2)) \<Rightarrow>
                  \<lparr>stdout = (if NArg cl > 1 then out2 @ report fl t2 ''total'' else out2),
                   halted = None\<rparr>))"

section \<open>Auxiliary definitions\<close>

text \<open>
  The four arrays in compact form, as the rule table in the comment of the source gives
  them: the action for a byte value, by range. They are proved equal to the arrays below
  and serve only to reason about all 256 byte values at once.
\<close>

definition sp_rule :: "nat \<Rightarrow> action" where
  "sp_rule i = (if i = 9 \<or> i = 32 then ASP else if i = 10 then ASPN else if i < 128 then AWDW
     else if i < 192 then AWDWX else if i < 224 then AC2W else if i < 240 then AC3W else AWDWX)"

definition wd_rule :: "nat \<Rightarrow> action" where
  "wd_rule i = (if i = 9 \<or> i = 32 then ASP else if i = 10 then ASPN else if i < 128 then AWD
     else if i < 192 then AWDX else if i < 224 then AC2 else if i < 240 then AC3 else AWDX)"

definition c2_rule :: "nat \<Rightarrow> action" where
  "c2_rule i = (if i = 9 \<or> i = 32 then ASPX else if i = 10 then ASPNX else if i < 128 then AWDX
     else if i < 192 then AWDR else if i < 224 then AC2X else if i < 240 then AC3X else AWDX)"

definition c3_rule :: "nat \<Rightarrow> action" where
  "c3_rule i = (if i = 9 \<or> i = 32 then ASPX else if i = 10 then ASPNX else if i < 128 then AWDX
     else if i < 192 then AC2R else if i < 224 then AC2X else if i < 240 then AC3X else AWDX)"

fun rule :: "state \<Rightarrow> nat \<Rightarrow> action" where
  "rule Statesp = sp_rule"
| "rule Statewd = wd_rule"
| "rule Statec2 = c2_rule"
| "rule Statec3 = c3_rule"

text \<open>
  The byte stream of a source is the concatenation of the chunks its reads deliver;
  \<open>bump\<close> is the provisional increment of \<open>bytes\<close> and \<open>chars\<close> by the length of
  a chunk.
\<close>

definition stream_of :: "read_result list \<Rightarrow> byte list" where
  "stream_of rs = concat (map chunk rs)"

definition bump :: "counter \<Rightarrow> nat \<Rightarrow> counter" where
  "bump n k = n\<lparr>bytes := bytes n + of_nat k, chars := chars n + of_nat k\<rparr>"

subsection \<open>The specification's notions\<close>

text \<open>
  These follow the words of the specification, not the code. Whitespace is tab,
  newline and space, and \<open>nonspace_runs\<close> lists the maximal runs of consecutive
  non-whitespace bytes of a stream, in order; the number of words the specification
  asks for is the length of that list.
\<close>

definition is_space :: "byte \<Rightarrow> bool" where
  "is_space b \<longleftrightarrow> b = 0x09 \<or> b = 0x0A \<or> b = 0x20"

function nonspace_runs :: "byte list \<Rightarrow> byte list list" where
  "nonspace_runs [] = []"
| "nonspace_runs (b # bs) =
     (if is_space b then nonspace_runs bs
      else (b # takeWhile (\<lambda>x. \<not> is_space x) bs) # nonspace_runs (dropWhile (\<lambda>x. \<not> is_space x) bs))"
  by pat_completeness auto
termination
  by (relation "measure length") (auto simp: less_Suc_eq_le length_dropWhile_le)

text \<open>The byte roles: continuation bytes, 2-byte and 3-byte leads, ASCII letters and digits.\<close>

definition is_cont :: "byte \<Rightarrow> bool" where
  "is_cont b \<longleftrightarrow> 0x80 \<le> b \<and> b \<le> 0xBF"

definition is_lead2 :: "byte \<Rightarrow> bool" where
  "is_lead2 b \<longleftrightarrow> 0xC0 \<le> b \<and> b \<le> 0xDF"

definition is_lead3 :: "byte \<Rightarrow> bool" where
  "is_lead3 b \<longleftrightarrow> 0xE0 \<le> b \<and> b \<le> 0xEF"

definition is_alnum :: "byte \<Rightarrow> bool" where
  "is_alnum b \<longleftrightarrow> (0x30 \<le> b \<and> b \<le> 0x39) \<or> (0x41 \<le> b \<and> b \<le> 0x5A) \<or> (0x61 \<le> b \<and> b \<le> 0x7A)"

text \<open>
  The number of bytes that start a word when the scan of the stream begins at a word
  boundary (\<open>at\<close>) or inside a word: the form in which the loop counts words.
\<close>

fun word_starts :: "bool \<Rightarrow> byte list \<Rightarrow> nat" where
  "word_starts at [] = 0"
| "word_starts at (b # bs) =
     (if is_space b then word_starts True bs
      else (if at then 1 else 0) + word_starts False bs)"

text \<open>
  A sequence is pending in \<^verbatim>\<open>statec2\<close> and \<^verbatim>\<open>statec3\<close>. An incomplete sequence is a
  lead byte without its continuations, or a 3-byte lead with only one of them.
\<close>

definition pending :: "state \<Rightarrow> bool" where
  "pending st \<longleftrightarrow> st = Statec2 \<or> st = Statec3"

fun incomplete :: "byte list \<Rightarrow> bool" where
  "incomplete [l] = (is_lead2 l \<or> is_lead3 l)"
| "incomplete [l, k] = (is_lead3 l \<and> is_cont k)"
| "incomplete bs = False"

subsection \<open>Notions for whole runs\<close>

text \<open>
  The flags \<^verbatim>\<open>report\<close> sees after the test of \<^verbatim>\<open>flag.NFlag()\<close> in \<^verbatim>\<open>main\<close>; the
  counters \<^verbatim>\<open>count\<close> computes for a source (it always returns, see
  \<open>count_returns\<close>); field-wise addition and sums of counters.
\<close>

definition effective_flags :: "cmdline \<Rightarrow> flags" where
  "effective_flags cl =
     (if NFlag cl = 0 then (parsed_flags cl)\<lparr>lflag := True, wflag := True, cflag := True\<rparr>
      else parsed_flags cl)"

definition counters_of :: "string \<Rightarrow> read_result list \<Rightarrow> counter" where
  "counters_of nm rs = (case count new_counter \<lparr>fname = nm, reads = rs\<rparr> of Inr c \<Rightarrow> c | Inl h \<Rightarrow> new_counter)"

definition opened_counters :: "filesys \<Rightarrow> string \<Rightarrow> counter" where
  "opened_counters fs a = (case fs a of Inr rs \<Rightarrow> counters_of a rs | Inl e \<Rightarrow> new_counter)"

definition add_counter :: "counter \<Rightarrow> counter \<Rightarrow> counter" where
  "add_counter t n =
     t\<lparr>lines := lines t + lines n, words := words t + words n, chars := chars t + chars n,
       errors := errors t + errors n, bytes := bytes t + bytes n\<rparr>"

definition sum_counters :: "counter list \<Rightarrow> counter" where
  "sum_counters cs =
     \<lparr>lines = sum_list (map lines cs), words = sum_list (map words cs),
      chars = sum_list (map chars cs), errors = sum_list (map errors cs),
      bytes = sum_list (map bytes cs)\<rparr>"

subsection \<open>Inputs of the examples\<close>

definition two_files :: filesys where
  "two_files a = Inr (if a = ''a'' then [Read [0x67, 0x6F, 0x0A] None]
                       else [Read [0xC3] None, Read [0xA9, 0x20, 0x80, 0xE0, 0x41] None])"

definition no_flags :: "string list \<Rightarrow> cmdline" where
  "no_flags as = \<lparr>lopt = None, wopt = None, copt = None, eopt = None, bopt = None, args = as\<rparr>"

definition failing_read :: filesys where
  "failing_read a =
     Inr [Read [0x67, 0x6F, 0x0A] None, Read [] (Some ''read f: input/output error''),
          Read [0x67, 0x6F, 0x0A] None]"

definition directory :: filesys where
  "directory a = Inr [Read [] (Some ''read d: is a directory'')]"

section \<open>The arrays, by byte range\<close>

lemma statesp_map: "statesp = map sp_rule [0..<256]"
  by code_simp
lemma statewd_map: "statewd = map wd_rule [0..<256]"
  by code_simp
lemma statec2_map: "statec2 = map c2_rule [0..<256]"
  by code_simp
lemma statec3_map: "statec3 = map c3_rule [0..<256]"
  by code_simp

lemma unat_byte_less: "unat (b :: byte) < 256"
  using unsigned_less [of b, where ?'a = nat] by simp

lemma table_nth: "table st ! unat (b :: byte) = rule st (unat b)"
  by (cases st) (simp_all add: statesp_map statewd_map statec2_map statec3_map unat_byte_less del: upt_Suc)

lemma step_rule: "step st n b = act (rule st (unat b)) n"
  by (simp add: step_def table_nth)

lemma byte_eq_iff: "(b :: byte) = c \<longleftrightarrow> unat b = unat c"
  by (rule word_unat_eq_iff)

lemmas rule_defs = sp_rule_def wd_rule_def c2_rule_def c3_rule_def

subsection \<open>Shifting counters through the loop\<close>

lemma act_bump: "act a (bump n k) = (fst (act a n), bump (snd (act a n)) k)"
  by (cases a) (simp_all add: bump_def)

lemma step_bump: "step st (bump n k) b = (fst (step st n b), bump (snd (step st n b)) k)"
  by (simp add: step_def act_bump)

lemma scan_bump: "scan st (bump n k) bs = (fst (scan st n bs), bump (snd (scan st n bs)) k)"
proof (induction bs arbitrary: st n)
  case Nil
  show ?case by simp
next
  case (Cons b bs)
  obtain st1 n1 where s: "step st n b = (st1, n1)" by (cases "step st n b")
  have "step st (bump n k) b = (st1, bump n1 k)" using step_bump [of st n k b] s by simp
  then show ?case using s Cons.IH [of st1 n1] by simp
qed

lemma scan_append:
  "scan st n (xs @ ys) = (case scan st n xs of (st', n') \<Rightarrow> scan st' n' ys)"
  by (induction xs arbitrary: st n) (simp_all split: prod.splits)

lemma bump_bump: "bump (bump n j) k = bump n (j + k)"
  by (simp add: bump_def add.assoc)

lemma bump_0: "bump n 0 = n"
  by (simp add: bump_def)

lemma count_loop_closed:
  assumes "\<forall>r\<in>set rs. chunk r \<noteq> []"
  shows "count_loop st n nm rs = Inr (scan st (bump n (length (stream_of rs))) (stream_of rs))"
  using assms
proof (induction rs arbitrary: st n)
  case Nil
  show ?case by (simp add: stream_of_def bump_0)
next
  case (Cons r rs)
  let ?c = "chunk r"
  let ?t = "stream_of rs"
  obtain st1 n1 where s: "scan st (bump n (length ?c)) ?c = (st1, n1)"
    by (cases "scan st (bump n (length ?c)) ?c")
  have ne: "?c \<noteq> []" and rest: "\<forall>r\<in>set rs. chunk r \<noteq> []" using Cons.prems by simp_all
  have "count_loop st n nm (r # rs) = count_loop st1 n1 nm rs"
    using ne s by (simp add: bump_def Let_def)
  also have "\<dots> = Inr (scan st1 (bump n1 (length ?t)) ?t)"
    by (rule Cons.IH [OF rest])
  also have "scan st1 (bump n1 (length ?t)) ?t = scan st (bump n (length ?c + length ?t)) (?c @ ?t)"
  proof -
    have "scan st (bump (bump n (length ?c)) (length ?t)) ?c = (st1, bump n1 (length ?t))"
      using scan_bump [of st "bump n (length ?c)" "length ?t" ?c] s by simp
    then show ?thesis by (simp add: scan_append bump_bump)
  qed
  finally show ?case by (simp add: stream_of_def)
qed

lemma count_loop_single:
  "count_loop st n nm [Read bs e] = Inr (scan st (bump n (length bs)) bs)"
  by (cases "bs = []") (simp_all add: bump_def Let_def split: prod.splits)

section \<open>Chunk boundaries\<close>

text \<open>
  Claim C1. For every byte stream and every partition of it into non-empty chunks,
  feeding the chunks in order through the loop of \<^verbatim>\<open>count\<close>, with the decoder state
  carried across the chunk boundaries, gives the same final state and the same five
  counters as one read that delivers the whole stream as a single chunk. This holds from
  any starting state and counters, and so for \<^verbatim>\<open>count\<close> itself.
\<close>

theorem chunking_independent:
  assumes "\<forall>r\<in>set rs. chunk r \<noteq> []"
  shows "count_loop st n nm rs = count_loop st n nm [Read (stream_of rs) e]
       \<and> count n \<lparr>fname = nm, reads = rs\<rparr> = count n \<lparr>fname = nm, reads = [Read (stream_of rs) e]\<rparr>"
proof -
  have loop: "count_loop st n nm rs = count_loop st n nm [Read (stream_of rs) e]" for st n
    by (simp only: count_loop_closed [OF assms] count_loop_single)
  show ?thesis
    using loop by (simp add: count_def)
qed

theorem chunking_independent_witness:
  "count new_counter \<lparr>fname = ''f'', reads = [Read [0x41, 0xC3] None, Read [0xA9] None, Read [0x0A, 0xE2, 0x82] None, Read [0xAC] None]\<rparr>
     = count new_counter \<lparr>fname = ''f'', reads = [Read [0x41, 0xC3, 0xA9, 0x0A, 0xE2, 0x82, 0xAC] None]\<rparr>
   \<and> count new_counter \<lparr>fname = ''f'', reads = [Read [0x41, 0xC3, 0xA9, 0x0A, 0xE2, 0x82, 0xAC] None]\<rparr>
     = Inr \<lparr>lines = 1, words = 2, chars = 4, errors = 0, bytes = 7\<rparr>"
proof -
  have ne: "\<forall>r\<in>set [Read [0x41, 0xC3] None, Read [0xA9] None, Read [0x0A, 0xE2, 0x82] None, Read [0xAC] None]. chunk r \<noteq> []"
    by simp
  have "count new_counter \<lparr>fname = ''f'', reads = [Read [0x41, 0xC3, 0xA9, 0x0A, 0xE2, 0x82, 0xAC] None]\<rparr>
     = Inr \<lparr>lines = 1, words = 2, chars = 4, errors = 0, bytes = 7\<rparr>"
    by (simp add: count_def new_counter_def step_rule rule_defs Let_def)
  then show ?thesis
    using chunking_independent [OF ne, of Statesp new_counter "''f''" None]
    by (simp add: stream_of_def)
qed

section \<open>What one byte does\<close>

lemmas byte_simps = byte_eq_iff word_less_nat_alt word_le_nat_alt

lemma step_lines: "lines (snd (step st n b)) = lines n + (if b = 0x0A then 1 else 0)"
  by (cases st) (simp_all add: step_rule rule_defs byte_simps)

lemma step_bytes: "bytes (snd (step st n b)) = bytes n"
  by (cases st) (simp_all add: step_rule rule_defs)

lemma step_words:
  "words (snd (step st n b)) = words n + (if st = Statesp \<and> \<not> is_space b then 1 else 0)"
  by (cases st) (auto simp add: step_rule rule_defs is_space_def byte_simps)

lemma step_at_boundary: "fst (step st n b) = Statesp \<longleftrightarrow> is_space b"
  by (cases st) (auto simp add: step_rule rule_defs is_space_def byte_simps)

lemma step_ascii:
  assumes "b < 0x80" and "st = Statesp \<or> st = Statewd"
  shows "errors (snd (step st n b)) = errors n \<and> chars (snd (step st n b)) = chars n
       \<and> (fst (step st n b) = Statesp \<or> fst (step st n b) = Statewd)"
  using assms by (auto simp add: step_rule rule_defs byte_simps split: if_splits)

lemma scan_lines:
  "lines (snd (scan st n bs)) = lines n + of_nat (length (filter (\<lambda>b. b = 0x0A) bs))"
proof (induction bs arbitrary: st n)
  case Nil
  show ?case by simp
next
  case (Cons b bs)
  obtain st1 n1 where s: "step st n b = (st1, n1)" by (cases "step st n b")
  have "lines n1 = lines n + (if b = 0x0A then 1 else 0)"
    using step_lines [of st n b] s by simp
  then show ?case using s Cons.IH [of st1 n1] by simp
qed

lemma scan_bytes: "bytes (snd (scan st n bs)) = bytes n"
proof (induction bs arbitrary: st n)
  case Nil
  show ?case by simp
next
  case (Cons b bs)
  obtain st1 n1 where s: "step st n b = (st1, n1)" by (cases "step st n b")
  have "bytes n1 = bytes n" using step_bytes [of st n b] s by simp
  then show ?case using s Cons.IH [of st1 n1] by simp
qed

lemma scan_words:
  "words (snd (scan st n bs)) = words n + of_nat (word_starts (st = Statesp) bs)"
proof (induction bs arbitrary: st n)
  case Nil
  show ?case by simp
next
  case (Cons b bs)
  obtain st1 n1 where s: "step st n b = (st1, n1)" by (cases "step st n b")
  have w: "words n1 = words n + (if st = Statesp \<and> \<not> is_space b then 1 else 0)"
    using step_words [of st n b] s by simp
  have a: "st1 = Statesp \<longleftrightarrow> is_space b"
    using step_at_boundary [of st n b] s by simp
  show ?case using s w a Cons.IH [of st1 n1] by simp
qed

lemma scan_ascii:
  assumes "\<forall>b\<in>set bs. b < 0x80" and "st = Statesp \<or> st = Statewd"
  shows "errors (snd (scan st n bs)) = errors n \<and> chars (snd (scan st n bs)) = chars n"
  using assms
proof (induction bs arbitrary: st n)
  case Nil
  show ?case by simp
next
  case (Cons b bs)
  obtain st1 n1 where s: "step st n b = (st1, n1)" by (cases "step st n b")
  have b: "b < 0x80" using Cons.prems(1) by simp
  have "errors n1 = errors n \<and> chars n1 = chars n \<and> (st1 = Statesp \<or> st1 = Statewd)"
    using step_ascii [OF b Cons.prems(2), of n] s by simp
  moreover have "\<forall>b\<in>set bs. b < 0x80" using Cons.prems(1) by simp
  ultimately show ?case using s Cons.IH [of st1 n1] by simp
qed

subsection \<open>Word starts and maximal runs\<close>

lemma word_starts_skip: "word_starts False bs = word_starts False (dropWhile (\<lambda>x. \<not> is_space x) bs)"
  by (induction bs) simp_all

lemma word_starts_space_first:
  "bs = [] \<or> is_space (hd bs) \<Longrightarrow> word_starts a bs = word_starts True bs"
  by (cases bs) auto

lemma dropWhile_nonspace_first:
  "dropWhile (\<lambda>x. \<not> is_space x) bs = [] \<or> is_space (hd (dropWhile (\<lambda>x. \<not> is_space x) bs))"
  using hd_dropWhile [of "\<lambda>x. \<not> is_space x" bs] by auto

lemma word_starts_runs: "word_starts True bs = length (nonspace_runs bs)"
proof (induction bs rule: nonspace_runs.induct)
  case 1
  show ?case by simp
next
  case (2 b bs)
  show ?case
  proof (cases "is_space b")
    case True
    then show ?thesis using 2 by simp
  next
    case False
    let ?d = "dropWhile (\<lambda>x. \<not> is_space x) bs"
    have "word_starts False bs = word_starts False ?d" by (rule word_starts_skip)
    also have "\<dots> = word_starts True ?d"
      by (rule word_starts_space_first) (rule dropWhile_nonspace_first)
    also have "\<dots> = length (nonspace_runs ?d)" using 2(2) [OF False] .
    finally show ?thesis using False by simp
  qed
qed

lemma word_starts_le: "word_starts a bs \<le> length bs"
  by (induction bs arbitrary: a) (auto intro: le_SucI)

lemma unat_count: "k < 2 ^ 64 \<Longrightarrow> unat (of_nat k :: uint64) = k"
  by (simp add: unat_of_nat)

subsection \<open>Whitespace separates runs\<close>

lemma takeWhile_stop: "\<not> P y \<Longrightarrow> takeWhile P (xs @ y # ys) = takeWhile P xs"
  by (induction xs) simp_all

lemma dropWhile_stop: "\<not> P y \<Longrightarrow> dropWhile P (xs @ y # ys) = dropWhile P xs @ y # ys"
  by (induction xs) simp_all

lemma nonspace_runs_whitespace:
  assumes "is_space w"
  shows "nonspace_runs (xs @ w # ys) = nonspace_runs xs @ nonspace_runs ys"
proof (induction xs rule: nonspace_runs.induct)
  case 1
  show ?case using assms by simp
next
  case (2 b bs)
  show ?case
  proof (cases "is_space b")
    case True
    then show ?thesis using 2(1) by simp
  next
    case False
    have w: "\<not> (\<lambda>x. \<not> is_space x) w" using assms by simp
    show ?thesis
      using False 2(2) [OF False]
      by (simp add: takeWhile_stop [of "\<lambda>x. \<not> is_space x", OF w] dropWhile_stop [of "\<lambda>x. \<not> is_space x", OF w])
  qed
qed

lemma filter_takeWhile_dropWhile:
  "filter P bs = takeWhile P bs @ filter P (dropWhile P bs)"
  by (induction bs) simp_all

lemma concat_nonspace_runs: "concat (nonspace_runs bs) = filter (\<lambda>x. \<not> is_space x) bs"
proof (induction bs rule: nonspace_runs.induct)
  case 1
  show ?case by simp
next
  case (2 b bs)
  show ?case
  proof (cases "is_space b")
    case True
    then show ?thesis using 2(1) by simp
  next
    case False
    then show ?thesis
      using 2(2) [OF False] filter_takeWhile_dropWhile [of "\<lambda>x. \<not> is_space x" bs] by simp
  qed
qed

lemma nonspace_runs_nonempty: "r \<in> set (nonspace_runs bs) \<Longrightarrow> r \<noteq> [] \<and> (\<forall>x\<in>set r. \<not> is_space x)"
proof (induction bs rule: nonspace_runs.induct)
  case 1
  then show ?case by simp
next
  case (2 b bs)
  show ?case
  proof (cases "is_space b")
    case True
    then show ?thesis using 2(1) 2(3) by simp
  next
    case False
    have "r = b # takeWhile (\<lambda>x. \<not> is_space x) bs \<or> r \<in> set (nonspace_runs (dropWhile (\<lambda>x. \<not> is_space x) bs))"
      using 2(3) False by simp
    then show ?thesis
    proof
      assume "r = b # takeWhile (\<lambda>x. \<not> is_space x) bs"
      then show ?thesis using False by (auto dest: set_takeWhileD)
    next
      assume "r \<in> set (nonspace_runs (dropWhile (\<lambda>x. \<not> is_space x) bs))"
      then show ?thesis by (rule 2(2) [OF False])
    qed
  qed
qed

subsection \<open>The result of count in closed form\<close>

lemma reset_counter:
  "(n :: counter)\<lparr>lines := 0, words := 0, chars := 0, errors := 0, bytes := 0\<rparr> = new_counter"
  by (cases n) (simp add: new_counter_def)

lemma count_closed:
  assumes "\<forall>r\<in>set rs. chunk r \<noteq> []"
  shows "count n \<lparr>fname = nm, reads = rs\<rparr>
       = Inr (snd (scan Statesp (bump new_counter (length (stream_of rs))) (stream_of rs)))"
  by (simp add: count_def reset_counter count_loop_closed [OF assms] split: prod.splits)

lemma counters_of_single:
  "counters_of nm [Read bs e] = snd (scan Statesp (bump new_counter (length bs)) bs)"
  by (simp only: counters_of_def count_def reset_counter os_file.simps count_loop_single
        sum.case prod.case_eq_if snd_conv)

lemma words_single:
  "words (counters_of nm [Read bs e]) = of_nat (length (nonspace_runs bs))"
  by (simp add: counters_of_single scan_words word_starts_runs bump_def new_counter_def)

section \<open>Words\<close>

text \<open>
  Claim C2. For every byte stream, delivered in any non-empty chunks, \<^verbatim>\<open>count\<close>
  (zeroed counters, starting in \<^verbatim>\<open>statesp\<close>) returns, and its \<open>words\<close> counter is the
  number of maximal runs of consecutive bytes outside \<open>{0x09, 0x0A, 0x20}\<close>: as a
  64-bit value for every stream, and as a number for every stream shorter than \<open>2^64\<close>
  bytes. Whitespace only separates: the words of a stream with a whitespace byte in it
  are the words before that byte plus the words after it, so whitespace in front, at
  the end, or next to other whitespace changes nothing.
\<close>

theorem words_are_maximal_runs:
  assumes "\<forall>r\<in>set rs. chunk r \<noteq> []"
  shows "(\<exists>c. count n \<lparr>fname = nm, reads = rs\<rparr> = Inr c
            \<and> words c = of_nat (length (nonspace_runs (stream_of rs)))
            \<and> (length (stream_of rs) < 2 ^ 64 \<longrightarrow>
                 unat (words c) = length (nonspace_runs (stream_of rs))))
       \<and> (is_space w \<longrightarrow>
            words (counters_of nm [Read (xs @ w # ys) None])
              = words (counters_of nm [Read xs None]) + words (counters_of nm [Read ys None]))"
proof -
  let ?bs = "stream_of rs"
  let ?c = "snd (scan Statesp (bump new_counter (length ?bs)) ?bs)"
  have w: "words ?c = of_nat (length (nonspace_runs ?bs))"
    by (simp add: scan_words word_starts_runs bump_def new_counter_def)
  have le: "length (nonspace_runs ?bs) \<le> length ?bs"
    using word_starts_le [of True ?bs] by (simp add: word_starts_runs)
  have "length ?bs < 2 ^ 64 \<longrightarrow> unat (words ?c) = length (nonspace_runs ?bs)"
  proof
    assume "length ?bs < 2 ^ 64"
    with le have "length (nonspace_runs ?bs) < 2 ^ 64" by (rule le_less_trans)
    then show "unat (words ?c) = length (nonspace_runs ?bs)" unfolding w by (rule unat_count)
  qed
  then have main: "\<exists>c. count n \<lparr>fname = nm, reads = rs\<rparr> = Inr c
      \<and> words c = of_nat (length (nonspace_runs ?bs))
      \<and> (length ?bs < 2 ^ 64 \<longrightarrow> unat (words c) = length (nonspace_runs ?bs))"
    using w count_closed [OF assms] by blast
  have "words (counters_of nm [Read (xs @ w # ys) None])
      = words (counters_of nm [Read xs None]) + words (counters_of nm [Read ys None])"
    if "is_space w"
    by (simp add: words_single nonspace_runs_whitespace [OF that])
  then show ?thesis using main by blast
qed

theorem words_are_maximal_runs_witness:
  "(\<exists>c. count new_counter \<lparr>fname = ''f'', reads =
          [Read [0x20, 0x67, 0x6F, 0x20] None, Read [0x20, 0x0A, 0xC3] None, Read [0xA9, 0x74, 0x09] None]\<rparr> = Inr c
      \<and> words c = 2 \<and> unat (words c) = 2)
   \<and> words (counters_of ''f'' [Read ([0x67, 0x6F] @ 0x20 # [0x20, 0x74, 0x6F]) None])
       = words (counters_of ''f'' [Read [0x67, 0x6F] None])
         + words (counters_of ''f'' [Read [0x20, 0x74, 0x6F] None])"
proof -
  let ?rs = "[Read [0x20, 0x67, 0x6F, 0x20] None, Read [0x20, 0x0A, 0xC3] None, Read [0xA9, 0x74, 0x09] None]"
  have ne: "\<forall>r\<in>set ?rs. chunk r \<noteq> []" by simp
  have runs: "nonspace_runs (stream_of ?rs) = [[0x67, 0x6F], [0xC3, 0xA9, 0x74]]"
    by (simp add: stream_of_def is_space_def)
  have len: "length (stream_of ?rs) < 2 ^ 64" by (simp add: stream_of_def)
  have sp: "is_space 0x20" by (simp add: is_space_def)
  have two: "length [[0x67, 0x6F], [0xC3, 0xA9, 0x74 :: byte]] = 2" by simp
  show ?thesis
    using words_are_maximal_runs [OF ne, of new_counter "''f''" "0x20" "[0x67, 0x6F]" "[0x20, 0x74, 0x6F]"]
      len sp
    unfolding runs two by (simp del: count_loop.simps append.simps)
qed

section \<open>Lines\<close>

text \<open>
  Claim C3. For every byte stream, delivered in any non-empty chunks, \<^verbatim>\<open>count\<close>
  returns, and its \<open>lines\<close> counter is the number of \<open>0x0A\<close> bytes of the stream (as
  a 64-bit value, and as a number for a stream shorter than \<open>2^64\<close> bytes); in each of
  the four states a \<open>0x0A\<close> byte adds exactly one line.
\<close>

theorem lines_are_newlines:
  assumes "\<forall>r\<in>set rs. chunk r \<noteq> []"
  shows "\<exists>c. count n \<lparr>fname = nm, reads = rs\<rparr> = Inr c
           \<and> lines c = of_nat (length (filter (\<lambda>b. b = 0x0A) (stream_of rs)))
           \<and> (length (stream_of rs) < 2 ^ 64 \<longrightarrow>
                unat (lines c) = length (filter (\<lambda>b. b = 0x0A) (stream_of rs)))
           \<and> lines (snd (step st m 0x0A)) = lines m + 1"
proof -
  let ?bs = "stream_of rs"
  let ?k = "length (filter (\<lambda>b. b = 0x0A) ?bs)"
  let ?c = "snd (scan Statesp (bump new_counter (length ?bs)) ?bs)"
  have l: "lines ?c = of_nat ?k"
    by (simp add: scan_lines bump_def new_counter_def)
  have le: "?k \<le> length ?bs" by (rule length_filter_le)
  have "length ?bs < 2 ^ 64 \<longrightarrow> unat (lines ?c) = ?k"
  proof
    assume "length ?bs < 2 ^ 64"
    with le have "?k < 2 ^ 64" by (rule le_less_trans)
    then show "unat (lines ?c) = ?k" unfolding l by (rule unat_count)
  qed
  moreover have "lines (snd (step st m 0x0A)) = lines m + 1"
    by (simp add: step_lines)
  ultimately show ?thesis using l count_closed [OF assms] by blast
qed

theorem lines_are_newlines_witness:
  "\<exists>c. count new_counter \<lparr>fname = ''f'', reads =
          [Read [0x67, 0x0A, 0xC3] None, Read [0x0A, 0xE2, 0x0A] None, Read [0x0A] None]\<rparr> = Inr c
      \<and> lines c = 4 \<and> unat (lines c) = 4
      \<and> lines (snd (step Statec3 new_counter 0x0A)) = lines new_counter + 1"
proof -
  let ?rs = "[Read [0x67, 0x0A, 0xC3] None, Read [0x0A, 0xE2, 0x0A] None, Read [0x0A] None]"
  have ne: "\<forall>r\<in>set ?rs. chunk r \<noteq> []" by simp
  show ?thesis
    using lines_are_newlines [OF ne, of new_counter "''f''" Statec3 new_counter]
    by (simp add: stream_of_def) (simp add: eval_nat_numeral)
qed

section \<open>Plain ASCII text\<close>

text \<open>
  Claim C6. For every byte stream whose bytes are all in \<open>{0x09, 0x0A, 0x20}\<close> or ASCII
  letters or digits, the final counters have \<open>errors = 0\<close> and \<open>chars = bytes\<close>.
\<close>

theorem ascii_text_counts:
  assumes "\<forall>r\<in>set rs. chunk r \<noteq> []"
    and "\<forall>b\<in>set (stream_of rs). is_space b \<or> is_alnum b"
  shows "\<exists>c. count n \<lparr>fname = nm, reads = rs\<rparr> = Inr c \<and> errors c = 0 \<and> chars c = bytes c"
proof -
  let ?bs = "stream_of rs"
  let ?n = "bump new_counter (length ?bs)"
  have "\<forall>b\<in>set ?bs. b < 0x80"
    using assms(2) by (auto simp add: is_space_def is_alnum_def byte_simps)
  then have "errors (snd (scan Statesp ?n ?bs)) = errors ?n \<and> chars (snd (scan Statesp ?n ?bs)) = chars ?n"
    by (rule scan_ascii) simp
  moreover have "bytes (snd (scan Statesp ?n ?bs)) = bytes ?n" by (rule scan_bytes)
  ultimately have "errors (snd (scan Statesp ?n ?bs)) = 0
      \<and> chars (snd (scan Statesp ?n ?bs)) = bytes (snd (scan Statesp ?n ?bs))"
    by (simp add: bump_def new_counter_def)
  then show ?thesis using count_closed [OF assms(1)] by blast
qed

theorem ascii_text_counts_witness:
  "\<exists>c. count new_counter \<lparr>fname = ''f'', reads =
          [Read [0x67, 0x6F, 0x0A] None, Read [0x20, 0x09, 0x5A, 0x39] None]\<rparr> = Inr c
      \<and> errors c = 0 \<and> chars c = bytes c"
proof -
  let ?rs = "[Read [0x67, 0x6F, 0x0A] None, Read [0x20, 0x09, 0x5A, 0x39] None]"
  have ne: "\<forall>r\<in>set ?rs. chunk r \<noteq> []" by simp
  have ok: "\<forall>b\<in>set (stream_of ?rs). is_space b \<or> is_alnum b"
    by (simp add: stream_of_def is_space_def is_alnum_def)
  show ?thesis
    using ascii_text_counts [OF ne ok, of new_counter "''f''"] by simp
qed

section \<open>Multi-byte sequences\<close>

lemma rule_lead2:
  "is_lead2 b \<Longrightarrow> rule st (unat b) =
     (case st of Statesp \<Rightarrow> AC2W | Statewd \<Rightarrow> AC2 | Statec2 \<Rightarrow> AC2X | Statec3 \<Rightarrow> AC2X)"
  by (cases st) (simp_all add: rule_defs is_lead2_def byte_simps)

lemma rule_lead3:
  "is_lead3 b \<Longrightarrow> rule st (unat b) =
     (case st of Statesp \<Rightarrow> AC3W | Statewd \<Rightarrow> AC3 | Statec2 \<Rightarrow> AC3X | Statec3 \<Rightarrow> AC3X)"
  by (cases st) (simp_all add: rule_defs is_lead3_def byte_simps)

lemma rule_cont:
  "is_cont b \<Longrightarrow> rule st (unat b) =
     (case st of Statesp \<Rightarrow> AWDWX | Statewd \<Rightarrow> AWDX | Statec2 \<Rightarrow> AWDR | Statec3 \<Rightarrow> AC2R)"
  by (cases st) (simp_all add: rule_defs is_cont_def byte_simps)

lemma step_lead2:
  "is_lead2 b \<Longrightarrow> step st n b =
     act (case st of Statesp \<Rightarrow> AC2W | Statewd \<Rightarrow> AC2 | Statec2 \<Rightarrow> AC2X | Statec3 \<Rightarrow> AC2X) n"
  by (simp only: step_rule rule_lead2)

lemma step_lead3:
  "is_lead3 b \<Longrightarrow> step st n b =
     act (case st of Statesp \<Rightarrow> AC3W | Statewd \<Rightarrow> AC3 | Statec2 \<Rightarrow> AC3X | Statec3 \<Rightarrow> AC3X) n"
  by (simp only: step_rule rule_lead3)

lemma step_cont:
  "is_cont b \<Longrightarrow> step st n b =
     act (case st of Statesp \<Rightarrow> AWDWX | Statewd \<Rightarrow> AWDX | Statec2 \<Rightarrow> AWDR | Statec3 \<Rightarrow> AC2R) n"
  by (simp only: step_rule rule_cont)

lemma scan_lead:
  assumes "is_lead2 l \<or> is_lead3 l"
  shows "pending (fst (scan st n [l]))
       \<and> chars (snd (scan st n [l])) = chars n
       \<and> bytes (snd (scan st n [l])) = bytes n
       \<and> errors (snd (scan st n [l])) = errors n + (if pending st then 1 else 0)"
  using assms by (cases st) (auto simp add: step_lead2 step_lead3 pending_def)

lemma scan_seq2:
  assumes "is_lead2 l" and "is_cont k"
  shows "fst (scan st n [l, k]) = Statewd
       \<and> chars (snd (scan st n [l, k])) = chars n - 1
       \<and> bytes (snd (scan st n [l, k])) = bytes n"
  using assms by (cases st) (simp_all add: step_lead2 step_cont)

lemma scan_seq3:
  assumes "is_lead3 l" and "is_cont k" and "is_cont k'"
  shows "fst (scan st n [l, k, k']) = Statewd
       \<and> chars (snd (scan st n [l, k, k'])) = chars n - 2
       \<and> bytes (snd (scan st n [l, k, k'])) = bytes n"
  using assms by (cases st) (simp_all add: step_lead3 step_cont)

lemma scan_lead3_cont:
  assumes "is_lead3 l" and "is_cont k"
  shows "fst (scan st n [l, k]) = Statec2
       \<and> chars (snd (scan st n [l, k])) = chars n - 1
       \<and> bytes (snd (scan st n [l, k])) = bytes n
       \<and> errors (snd (scan st n [l, k])) = errors n + (if pending st then 1 else 0)"
  using assms by (cases st) (simp_all add: step_lead3 step_cont pending_def)

lemma scan_extend:
  "scan st0 (bump n0 (length pre + length seq)) (pre @ seq) =
     (case scan st0 (bump n0 (length pre)) pre of (st, c) \<Rightarrow> scan st (bump c (length seq)) seq)"
proof -
  obtain st c where s: "scan st0 (bump n0 (length pre)) pre = (st, c)"
    by (cases "scan st0 (bump n0 (length pre)) pre")
  have "scan st0 (bump (bump n0 (length pre)) (length seq)) pre = (st, bump c (length seq))"
    using scan_bump [of st0 "bump n0 (length pre)" "length seq" pre] s by simp
  then show ?thesis using s by (simp add: scan_append bump_bump)
qed

lemma count_loop_extend:
  assumes "\<forall>r\<in>set rs. chunk r \<noteq> []" and "\<forall>r\<in>set rs'. chunk r \<noteq> []"
    and "stream_of rs' = stream_of rs @ seq"
    and "count_loop st0 n0 nm rs = Inr (st, c)"
  shows "count_loop st0 n0 nm rs' = Inr (scan st (bump c (length seq)) seq)"
proof -
  have "scan st0 (bump n0 (length (stream_of rs))) (stream_of rs) = (st, c)"
    using assms(4) count_loop_closed [OF assms(1), of st0 n0 nm] by simp
  then show ?thesis
    using count_loop_closed [OF assms(2), of st0 n0 nm] assms(3)
    by (simp add: scan_extend)
qed

lemma count_loop_returns: "\<exists>st' n'. count_loop st n nm rs = Inr (st', n')"
proof (induction rs arbitrary: st n)
  case Nil
  show ?case by simp
next
  case (Cons r rs)
  show ?case
  proof (cases "chunk r = []")
    case True
    then show ?thesis by simp
  next
    case False
    then show ?thesis using Cons.IH by (simp add: Let_def split: prod.splits)
  qed
qed

lemma bump_fields:
  "chars (bump n k) = chars n + of_nat k" "bytes (bump n k) = bytes n + of_nat k"
  "errors (bump n k) = errors n" "lines (bump n k) = lines n" "words (bump n k) = words n"
  by (simp_all add: bump_def)

text \<open>
  Claim C4. In any stream (any starting state and counters, any non-empty chunks, also
  when a chunk boundary falls inside the sequence): appending a completed 2-byte
  sequence, a lead in \<open>0xC0\<close>-\<open>0xDF\<close> and a continuation in \<open>0x80\<close>-\<open>0xBF\<close>,
  adds 2 to \<open>bytes\<close> and 1 to \<open>chars\<close>; appending a completed 3-byte sequence, a lead
  in \<open>0xE0\<close>-\<open>0xEF\<close> and two continuations, adds 3 to \<open>bytes\<close> and 1 to \<open>chars\<close>;
  a lead byte alone at the end of the stream adds 1 to \<open>bytes\<close> and 1 to \<open>chars\<close>
  and is itself no bad sequence: \<open>errors\<close> stays as it is, except for the one count
  of an earlier sequence that was still pending and that the lead breaks.
\<close>

theorem multibyte_contributions:
  assumes "\<forall>r\<in>set rs. chunk r \<noteq> []" and "\<forall>r\<in>set rs'. chunk r \<noteq> []"
  shows "\<exists>st c st' c'.
           count_loop st0 n0 nm rs = Inr (st, c) \<and> count_loop st0 n0 nm rs' = Inr (st', c')
         \<and> (is_lead2 l \<and> is_cont k \<and> stream_of rs' = stream_of rs @ [l, k] \<longrightarrow>
              bytes c' = bytes c + 2 \<and> chars c' = chars c + 1)
         \<and> (is_lead3 l \<and> is_cont k \<and> is_cont k' \<and> stream_of rs' = stream_of rs @ [l, k, k'] \<longrightarrow>
              bytes c' = bytes c + 3 \<and> chars c' = chars c + 1)
         \<and> ((is_lead2 l \<or> is_lead3 l) \<and> stream_of rs' = stream_of rs @ [l] \<longrightarrow>
              bytes c' = bytes c + 1 \<and> chars c' = chars c + 1
              \<and> errors c' = errors c + (if st = Statec2 \<or> st = Statec3 then 1 else 0))"
proof -
  obtain st c where r: "count_loop st0 n0 nm rs = Inr (st, c)"
    using count_loop_returns by blast
  obtain st' c' where r': "count_loop st0 n0 nm rs' = Inr (st', c')"
    using count_loop_returns by blast
  note ext = count_loop_extend [OF assms(1) assms(2) _ r]
  have two: "bytes c' = bytes c + 2 \<and> chars c' = chars c + 1"
    if "is_lead2 l" "is_cont k" "stream_of rs' = stream_of rs @ [l, k]"
  proof -
    let ?n = "bump c (length [l, k])"
    have "c' = snd (scan st ?n [l, k])" using ext [OF that(3)] r' by (metis sum.inject(2) snd_conv)
    then show ?thesis
      using scan_seq2 [OF that(1) that(2), of st ?n] by (simp add: bump_fields del: scan.simps)
  qed
  have three: "bytes c' = bytes c + 3 \<and> chars c' = chars c + 1"
    if "is_lead3 l" "is_cont k" "is_cont k'" "stream_of rs' = stream_of rs @ [l, k, k']"
  proof -
    let ?n = "bump c (length [l, k, k'])"
    have "c' = snd (scan st ?n [l, k, k'])" using ext [OF that(4)] r' by (metis sum.inject(2) snd_conv)
    then show ?thesis
      using scan_seq3 [OF that(1) that(2) that(3), of st ?n] by (simp add: bump_fields del: scan.simps)
  qed
  have lone: "bytes c' = bytes c + 1 \<and> chars c' = chars c + 1
      \<and> errors c' = errors c + (if st = Statec2 \<or> st = Statec3 then 1 else 0)"
    if "is_lead2 l \<or> is_lead3 l" "stream_of rs' = stream_of rs @ [l]"
  proof -
    let ?n = "bump c (length [l])"
    have "c' = snd (scan st ?n [l])" using ext [OF that(2)] r' by (metis sum.inject(2) snd_conv)
    then show ?thesis
      using scan_lead [OF that(1), of st ?n] by (simp add: bump_fields pending_def del: scan.simps)
  qed
  show ?thesis using r r' two three lone by blast
qed

theorem multibyte_contributions_witness:
  "(\<exists>st c st' c'.
      count_loop Statesp new_counter ''f'' [Read [0x41] None] = Inr (st, c)
    \<and> count_loop Statesp new_counter ''f'' [Read [0x41, 0xC3] None, Read [0xA9] None] = Inr (st', c')
    \<and> bytes c' = bytes c + 2 \<and> chars c' = chars c + 1)
 \<and> (\<exists>st c st' c'.
      count_loop Statesp new_counter ''f'' [Read [0x41] None] = Inr (st, c)
    \<and> count_loop Statesp new_counter ''f'' [Read [0x41, 0xE2] None, Read [0x82, 0xAC] None] = Inr (st', c')
    \<and> bytes c' = bytes c + 3 \<and> chars c' = chars c + 1)
 \<and> (\<exists>st c st' c'.
      count_loop Statesp new_counter ''f'' [Read [0x41] None] = Inr (st, c)
    \<and> count_loop Statesp new_counter ''f'' [Read [0x41] None, Read [0xE2] None] = Inr (st', c')
    \<and> bytes c' = bytes c + 1 \<and> chars c' = chars c + 1 \<and> errors c' = errors c)"
proof -
  have a: "\<forall>r\<in>set [Read [0x41] None]. chunk r \<noteq> []" by simp
  have b2: "\<forall>r\<in>set [Read [0x41, 0xC3] None, Read [0xA9] None]. chunk r \<noteq> []" by simp
  have b3: "\<forall>r\<in>set [Read [0x41, 0xE2] None, Read [0x82, 0xAC] None]. chunk r \<noteq> []" by simp
  have b1: "\<forall>r\<in>set [Read [0x41] None, Read [0xE2] None]. chunk r \<noteq> []" by simp
  have st: "count_loop Statesp new_counter ''f'' [Read [0x41] None]
      = Inr (Statewd, \<lparr>lines = 0, words = 1, chars = 1, errors = 0, bytes = 1\<rparr>)"
    by (simp add: new_counter_def step_rule rule_defs)
  have two: "is_lead2 0xC3 \<and> is_cont 0xA9
      \<and> stream_of [Read [0x41, 0xC3] None, Read [0xA9] None] = stream_of [Read [0x41] None] @ [0xC3, 0xA9]"
    by (simp add: is_lead2_def is_cont_def stream_of_def)
  have three: "is_lead3 0xE2 \<and> is_cont 0x82 \<and> is_cont 0xAC
      \<and> stream_of [Read [0x41, 0xE2] None, Read [0x82, 0xAC] None] = stream_of [Read [0x41] None] @ [0xE2, 0x82, 0xAC]"
    by (simp add: is_lead3_def is_cont_def stream_of_def)
  have lone: "(is_lead2 0xE2 \<or> is_lead3 0xE2)
      \<and> stream_of [Read [0x41] None, Read [0xE2] None] = stream_of [Read [0x41] None] @ [0xE2]"
    by (simp add: is_lead3_def stream_of_def)
  show ?thesis
    using multibyte_contributions [OF a b2, of Statesp new_counter "''f''" "0xC3" "0xA9" "0xAC"] two
      multibyte_contributions [OF a b3, of Statesp new_counter "''f''" "0xE2" "0x82" "0xAC"] three
      multibyte_contributions [OF a b1, of Statesp new_counter "''f''" "0xE2" "0x82" "0xAC"] lone
    unfolding st by (auto simp del: count_loop.simps)
qed

section \<open>Resynchronisation\<close>

text \<open>
  Claim C5, as stated, fails. It says that a non-continuation byte arriving in
  \<^verbatim>\<open>statec2\<close> or \<^verbatim>\<open>statec3\<close> counts one bad sequence for the broken sequence and then
  gets the effects it has when arriving from \<^verbatim>\<open>statewd\<close> (or \<^verbatim>\<open>statesp\<close>), so that a
  byte in \<open>0xF0\<close>-\<open>0xFF\<close> would count two bad sequences. The arrays hold \<^verbatim>\<open>AWDX\<close>
  there: byte \<open>0xF0\<close> in \<^verbatim>\<open>statec2\<close> or \<^verbatim>\<open>statec3\<close> counts one bad sequence, not two.
\<close>

theorem resync_invalid_lead_counterexample:
  "\<not> is_cont 0xF0
   \<and> errors (snd (step Statec2 new_counter 0xF0)) = 1
   \<and> errors (snd (step Statec3 new_counter 0xF0)) = 1
   \<and> errors (snd (step Statewd (new_counter\<lparr>errors := errors new_counter + 1\<rparr>) 0xF0)) = 2
   \<and> errors (snd (step Statesp (new_counter\<lparr>errors := errors new_counter + 1\<rparr>) 0xF0)) = 2
   \<and> step Statec2 new_counter 0xF0 \<noteq> step Statewd (new_counter\<lparr>errors := errors new_counter + 1\<rparr>) 0xF0
   \<and> step Statec2 new_counter 0xF0 \<noteq> step Statesp (new_counter\<lparr>errors := errors new_counter + 1\<rparr>) 0xF0"
  by (simp add: is_cont_def step_rule rule_defs new_counter_def)

text \<open>
  Claim C5, amended. For every non-continuation byte processed in \<^verbatim>\<open>statec2\<close> or
  \<^verbatim>\<open>statec3\<close> the step counts exactly one bad sequence in all. For a byte below
  \<open>0xF0\<close> that count is the one for the broken sequence, and the byte then has exactly
  the effects it has when arriving from \<^verbatim>\<open>statewd\<close> (it may end the word, start a line
  or start a new sequence). A byte in \<open>0xF0\<close>-\<open>0xFF\<close> enters \<^verbatim>\<open>statewd\<close> with that single
  count: the count for the break and the count for the invalid lead are not both made.
\<close>

theorem resync_after_break:
  assumes "st = Statec2 \<or> st = Statec3" and "\<not> is_cont b"
  shows "errors (snd (step st n b)) = errors n + 1
       \<and> step st n b =
           (if b < 0xF0 then step Statewd (n\<lparr>errors := errors n + 1\<rparr>) b
            else (Statewd, n\<lparr>errors := errors n + 1\<rparr>))"
  using assms by (auto simp add: step_rule rule_defs is_cont_def byte_simps)

theorem resync_after_break_witness:
  "errors (snd (step Statec2 new_counter 0x0A)) = errors new_counter + 1
   \<and> step Statec2 new_counter 0x0A = step Statewd (new_counter\<lparr>errors := errors new_counter + 1\<rparr>) 0x0A
   \<and> step Statec3 new_counter 0xF0 = (Statewd, new_counter\<lparr>errors := errors new_counter + 1\<rparr>)"
proof -
  have s: "Statec2 = Statec2 \<or> Statec2 = Statec3" "Statec3 = Statec2 \<or> Statec3 = Statec3" by simp_all
  have b: "\<not> is_cont 0x0A" "\<not> is_cont 0xF0" by (simp_all add: is_cont_def)
  show ?thesis
    using resync_after_break [OF s(1) b(1), of new_counter] resync_after_break [OF s(2) b(2), of new_counter]
    by (simp add: step_rule rule_defs)
qed

section \<open>End of the source inside a sequence\<close>

lemma step_to_c3: "fst (step st n b) = Statec3 \<longleftrightarrow> is_lead3 b"
  by (cases st) (auto simp add: step_rule rule_defs is_lead3_def byte_simps split: if_splits)

lemma step_to_c2: "fst (step st n b) = Statec2 \<longleftrightarrow> is_lead2 b \<or> (st = Statec3 \<and> is_cont b)"
  by (cases st) (auto simp add: step_rule rule_defs is_lead2_def is_cont_def byte_simps split: if_splits)

lemma scan_snoc:
  "scan st n (bs @ [b]) = (case scan st n bs of (st', n') \<Rightarrow> step st' n' b)"
  by (simp add: scan_append split: prod.splits)

lemma pending_shape:
  assumes "pending (fst (scan Statesp n bs))"
  shows "\<exists>pre inc. bs = pre @ inc \<and> incomplete inc"
proof (cases bs rule: rev_cases)
  case Nil
  then show ?thesis using assms by (simp add: pending_def)
next
  case (snoc pre1 b)
  obtain s1 n1 where s1: "scan Statesp n pre1 = (s1, n1)" by (cases "scan Statesp n pre1")
  have fin: "pending (fst (step s1 n1 b))" using assms snoc s1 by (simp add: scan_snoc)
  then consider "is_lead2 b \<or> is_lead3 b" | "s1 = Statec3" "is_cont b"
    by (auto simp add: pending_def step_to_c2 step_to_c3)
  then show ?thesis
  proof cases
    case 1
    then have "incomplete [b]" by simp
    then show ?thesis using snoc by blast
  next
    case 2
    show ?thesis
    proof (cases pre1 rule: rev_cases)
      case Nil
      then show ?thesis using s1 2(1) by simp
    next
      case (snoc pre2 l)
      obtain s2 n2 where s2: "scan Statesp n pre2 = (s2, n2)" by (cases "scan Statesp n pre2")
      have "fst (step s2 n2 l) = Statec3" using s1 snoc s2 2(1) by (simp add: scan_snoc)
      then have "is_lead3 l" by (simp add: step_to_c3)
      then have "incomplete [l, b]" using 2(2) by simp
      moreover have "bs = pre2 @ [l, b]" using \<open>bs = pre1 @ [b]\<close> snoc by simp
      ultimately show ?thesis by blast
    qed
  qed
qed

lemma scan_incomplete:
  assumes "incomplete inc"
  shows "chars (snd (scan st (bump c (length inc)) inc)) = chars c + 1
       \<and> bytes (snd (scan st (bump c (length inc)) inc)) = bytes c + of_nat (length inc)
       \<and> errors (snd (scan st (bump c (length inc)) inc)) = errors c + (if pending st then 1 else 0)"
proof -
  consider l where "inc = [l]" "is_lead2 l \<or> is_lead3 l"
    | l k where "inc = [l, k]" "is_lead3 l" "is_cont k"
    using assms by (cases inc rule: incomplete.cases) auto
  then show ?thesis
  proof cases
    case 1
    show ?thesis
      unfolding 1(1) using scan_lead [OF 1(2), of st "bump c (length [l])"]
      by (simp add: bump_fields del: scan.simps)
  next
    case 2
    show ?thesis
      unfolding 2(1) using scan_lead3_cont [OF 2(2) 2(3), of st "bump c (length [l, k])"]
      by (simp add: bump_fields del: scan.simps)
  qed
qed

text \<open>
  Claim C7, as stated, fails: it says that a sequence left incomplete by the end of the
  source is not counted as a character. A source holding the single lead byte \<open>0xC3\<close>
  ends in \<^verbatim>\<open>statec2\<close> with \<open>chars = 1\<close>, and one holding \<open>0x41 0xE2 0x82\<close> ends in
  \<^verbatim>\<open>statec2\<close> with \<open>chars = 2\<close>: the incomplete sequence counts as one character (and
  as no bad sequence).
\<close>

theorem ends_mid_sequence_counterexample:
  "count_loop Statesp new_counter ''f'' [Read [0xC3] None]
     = Inr (Statec2, \<lparr>lines = 0, words = 1, chars = 1, errors = 0, bytes = 1\<rparr>)
   \<and> count new_counter \<lparr>fname = ''f'', reads = [Read [0xC3] None]\<rparr>
     = Inr \<lparr>lines = 0, words = 1, chars = 1, errors = 0, bytes = 1\<rparr>
   \<and> count new_counter \<lparr>fname = ''f'', reads = [Read [0x41] None]\<rparr>
     = Inr \<lparr>lines = 0, words = 1, chars = 1, errors = 0, bytes = 1\<rparr>
   \<and> count_loop Statesp new_counter ''f'' [Read [0x41, 0xE2, 0x82] None]
     = Inr (Statec2, \<lparr>lines = 0, words = 1, chars = 2, errors = 0, bytes = 3\<rparr>)"
  by (simp add: count_def new_counter_def step_rule rule_defs)

text \<open>
  Claim C7, amended. When the source ends while the state is \<^verbatim>\<open>statec2\<close> or
  \<^verbatim>\<open>statec3\<close>, processing stops with no finalization step: \<^verbatim>\<open>count\<close> returns the
  counters as the last byte left them. The stream then ends with an incomplete
  sequence (a lead byte, or a 3-byte lead and one continuation); compared with the
  stream before it, that sequence is not counted as a bad sequence (the only error
  counted on its arrival is the one for an earlier pending sequence that its lead
  breaks), and it is counted as exactly one character.
\<close>

theorem ends_mid_sequence:
  assumes "\<forall>r\<in>set rs. chunk r \<noteq> []"
  shows "\<exists>st' c'.
           count_loop Statesp new_counter nm rs = Inr (st', c')
         \<and> count n \<lparr>fname = nm, reads = rs\<rparr> = Inr c'
         \<and> (st' = Statec2 \<or> st' = Statec3 \<longrightarrow>
              (\<exists>pre inc st c.
                  stream_of rs = pre @ inc \<and> incomplete inc
                \<and> count_loop Statesp new_counter nm [Read pre None] = Inr (st, c)
                \<and> chars c' = chars c + 1
                \<and> errors c' = errors c + (if st = Statec2 \<or> st = Statec3 then 1 else 0)
                \<and> bytes c' = bytes c + of_nat (length inc)))"
proof -
  let ?bs = "stream_of rs"
  obtain st' c' where fin: "scan Statesp (bump new_counter (length ?bs)) ?bs = (st', c')"
    by (cases "scan Statesp (bump new_counter (length ?bs)) ?bs")
  have loop: "count_loop Statesp new_counter nm rs = Inr (st', c')"
    using count_loop_closed [OF assms, of Statesp new_counter nm] fin by simp
  have cnt: "count n \<lparr>fname = nm, reads = rs\<rparr> = Inr c'"
    using count_closed [OF assms, of n nm] fin by simp
  have tail: "\<exists>pre inc st c.
        ?bs = pre @ inc \<and> incomplete inc
      \<and> count_loop Statesp new_counter nm [Read pre None] = Inr (st, c)
      \<and> chars c' = chars c + 1
      \<and> errors c' = errors c + (if st = Statec2 \<or> st = Statec3 then 1 else 0)
      \<and> bytes c' = bytes c + of_nat (length inc)"
    if p: "st' = Statec2 \<or> st' = Statec3"
  proof -
    have "pending (fst (scan Statesp (bump new_counter (length ?bs)) ?bs))"
      using fin p by (simp add: pending_def)
    then obtain pre inc where split: "?bs = pre @ inc" and inc: "incomplete inc"
      using pending_shape by blast
    obtain st c where pre: "scan Statesp (bump new_counter (length pre)) pre = (st, c)"
      by (cases "scan Statesp (bump new_counter (length pre)) pre")
    have one: "count_loop Statesp new_counter nm [Read pre None] = Inr (st, c)"
      by (simp only: count_loop_single pre)
    have "scan Statesp (bump new_counter (length pre + length inc)) (pre @ inc)
        = scan st (bump c (length inc)) inc"
      by (simp only: scan_extend pre prod.case)
    then have "c' = snd (scan st (bump c (length inc)) inc)"
      using fin split by simp
    then have "chars c' = chars c + 1
        \<and> errors c' = errors c + (if st = Statec2 \<or> st = Statec3 then 1 else 0)
        \<and> bytes c' = bytes c + of_nat (length inc)"
      using scan_incomplete [OF inc, of st c] by (simp add: pending_def)
    then show ?thesis using split inc one by blast
  qed
  show ?thesis using loop cnt tail by blast
qed

theorem ends_mid_sequence_witness:
  "\<exists>st' c'.
      count_loop Statesp new_counter ''f'' [Read [0x41, 0xE2] None, Read [0x82] None] = Inr (st', c')
    \<and> count new_counter \<lparr>fname = ''f'', reads = [Read [0x41, 0xE2] None, Read [0x82] None]\<rparr> = Inr c'
    \<and> st' = Statec2
    \<and> (\<exists>pre inc st c.
           [0x41, 0xE2, 0x82] = pre @ inc \<and> incomplete inc
         \<and> count_loop Statesp new_counter ''f'' [Read pre None] = Inr (st, c)
         \<and> chars c' = chars c + 1
         \<and> errors c' = errors c + (if st = Statec2 \<or> st = Statec3 then 1 else 0)
         \<and> bytes c' = bytes c + of_nat (length inc))"
proof -
  let ?rs = "[Read [0x41, 0xE2] None, Read [0x82] None]"
  have ne: "\<forall>r\<in>set ?rs. chunk r \<noteq> []" by simp
  have run: "count_loop Statesp new_counter ''f'' ?rs
      = Inr (Statec2, \<lparr>lines = 0, words = 1, chars = 2, errors = 0, bytes = 3\<rparr>)"
    by (simp add: new_counter_def step_rule rule_defs)
  have s: "stream_of ?rs = [0x41, 0xE2, 0x82]" by (simp add: stream_of_def)
  show ?thesis
    using ends_mid_sequence [OF ne, of "''f''" new_counter] unfolding run s
    by (auto simp del: count_loop.simps)
qed

section \<open>Several sources\<close>

lemma count_reset: "count n f = count new_counter f"
  by (simp add: count_def reset_counter)

lemma count_returns: "count n \<lparr>fname = nm, reads = rs\<rparr> = Inr (counters_of nm rs)"
proof -
  obtain st c where "count_loop Statesp new_counter nm rs = Inr (st, c)"
    using count_loop_returns by blast
  then show ?thesis by (simp add: counters_of_def count_def reset_counter)
qed

lemma foldl_add_counter:
  "foldl add_counter t cs =
     \<lparr>lines = lines t + sum_list (map lines cs), words = words t + sum_list (map words cs),
      chars = chars t + sum_list (map chars cs), errors = errors t + sum_list (map errors cs),
      bytes = bytes t + sum_list (map bytes cs)\<rparr>"
proof (induction cs arbitrary: t)
  case Nil
  show ?case by simp
next
  case (Cons c cs)
  have "foldl add_counter t (c # cs) = foldl add_counter (add_counter t c) cs" by simp
  also have "\<dots> =
     \<lparr>lines = lines (add_counter t c) + sum_list (map lines cs),
      words = words (add_counter t c) + sum_list (map words cs),
      chars = chars (add_counter t c) + sum_list (map chars cs),
      errors = errors (add_counter t c) + sum_list (map errors cs),
      bytes = bytes (add_counter t c) + sum_list (map bytes cs)\<rparr>"
    by (rule Cons.IH)
  also have "\<dots> =
     \<lparr>lines = lines t + sum_list (map lines (c # cs)), words = words t + sum_list (map words (c # cs)),
      chars = chars t + sum_list (map chars (c # cs)), errors = errors t + sum_list (map errors (c # cs)),
      bytes = bytes t + sum_list (map bytes (c # cs))\<rparr>"
    by (simp add: add_counter_def add.assoc)
  finally show ?case .
qed

lemma foldl_add_new: "foldl add_counter new_counter cs = sum_counters cs"
  by (simp add: foldl_add_counter sum_counters_def new_counter_def)

lemma files_loop_ok:
  assumes "\<forall>a\<in>set as. \<exists>rs. fs a = Inr rs"
  shows "\<exists>n'. files_loop fl fs n t out as =
           (out @ concat (map (\<lambda>a. report fl (opened_counters fs a) a) as),
            Inr (n', foldl add_counter t (map (opened_counters fs) as)))"
  using assms
proof (induction as arbitrary: n t out)
  case Nil
  show ?case by simp
next
  case (Cons a as)
  obtain rs where rs: "fs a = Inr rs" using Cons.prems by auto
  have oc: "opened_counters fs a = counters_of a rs" by (simp add: opened_counters_def rs)
  have rest: "\<forall>a\<in>set as. \<exists>rs. fs a = Inr rs" using Cons.prems by simp
  let ?c = "counters_of a rs"
  have step: "files_loop fl fs n t out (a # as) =
      files_loop fl fs ?c (add_counter t ?c) (out @ report fl ?c a) as"
    by (simp add: rs count_returns add_counter_def)
  obtain n' where ih: "files_loop fl fs ?c (add_counter t ?c) (out @ report fl ?c a) as =
      ((out @ report fl ?c a) @ concat (map (\<lambda>a. report fl (opened_counters fs a) a) as),
       Inr (n', foldl add_counter (add_counter t ?c) (map (opened_counters fs) as)))"
    using Cons.IH [OF rest] by blast
  show ?case unfolding step ih by (simp add: oc)
qed

lemma main_ok:
  assumes "\<forall>a\<in>set (args cl). \<exists>rs. fs a = Inr rs"
  shows "main cl stdin fs =
     \<lparr>stdout =
        (if args cl = [] then report (effective_flags cl) (counters_of ''/dev/stdin'' stdin) [] else [])
        @ concat (map (\<lambda>a. report (effective_flags cl) (opened_counters fs a) a) (args cl))
        @ (if 1 < length (args cl)
           then report (effective_flags cl) (sum_counters (map (opened_counters fs) (args cl))) ''total''
           else []),
      halted = None\<rparr>"
proof -
  let ?fl = "effective_flags cl"
  let ?out1 = "if args cl = [] then report ?fl (counters_of ''/dev/stdin'' stdin) [] else []"
  let ?n1 = "if args cl = [] then counters_of ''/dev/stdin'' stdin else new_counter"
  obtain n' where loop: "files_loop ?fl fs ?n1 new_counter ?out1 (args cl) =
      (?out1 @ concat (map (\<lambda>a. report ?fl (opened_counters fs a) a) (args cl)),
       Inr (n', foldl add_counter new_counter (map (opened_counters fs) (args cl))))"
    using files_loop_ok [OF assms] by blast
  show ?thesis
  proof (cases "args cl = []")
    case True
    then show ?thesis
      by (simp add: main_def Let_def NArg_def count_returns effective_flags_def)
  next
    case False
    then show ?thesis
      using loop
      by (simp add: main_def Let_def NArg_def effective_flags_def foldl_add_new del: files_loop.simps)
  qed
qed

text \<open>
  Claim C8. For every list of sources that can be opened (any number, also none, when
  standard input is read), \<^verbatim>\<open>main\<close> returns normally and prints one line per source
  and then, exactly when more than one source is given, the line \<open>total\<close>; each of the
  five counters reported on that line is the sum of the corresponding counters of the
  sources. The counters of a source are those \<^verbatim>\<open>count\<close> computes from zero: \<^verbatim>\<open>count\<close>
  resets the five counters on entry, so its result does not depend on what the
  previous source left in them.
\<close>

theorem totals_are_sums:
  assumes "\<forall>a\<in>set (args cl). \<exists>rs. fs a = Inr rs"
  shows "main cl stdin fs =
     \<lparr>stdout =
        (if args cl = [] then report (effective_flags cl) (counters_of ''/dev/stdin'' stdin) [] else [])
        @ concat (map (\<lambda>a. report (effective_flags cl) (opened_counters fs a) a) (args cl))
        @ (if 1 < length (args cl)
           then report (effective_flags cl) (sum_counters (map (opened_counters fs) (args cl))) ''total''
           else []),
      halted = None\<rparr>
   \<and> count n f = count new_counter f"
  using main_ok [OF assms] count_reset by blast

theorem totals_are_sums_witness:
  "main \<lparr>lopt = None, wopt = None, copt = None, eopt = Some True, bopt = Some True, args = [''a'', ''b'']\<rparr>
        [] two_files =
     \<lparr>stdout = ''      0      3 a'' @ [newline] @ ''      2      6 b'' @ [newline]
                @ ''      2      9 total'' @ [newline],
      halted = None\<rparr>"
proof -
  let ?cl = "\<lparr>lopt = None, wopt = None, copt = None, eopt = Some True, bopt = Some True, args = [''a'', ''b'']\<rparr>"
  have op: "\<forall>a\<in>set (args ?cl). \<exists>rs. two_files a = Inr rs"
    by (intro ballI exI) (rule two_files_def)
  have fl: "effective_flags ?cl = \<lparr>lflag = False, wflag = False, cflag = False, eflag = True, bflag = True\<rparr>"
    by (auto simp add: effective_flags_def NFlag_def parsed_flags_def flag_value_def)
  have a: "opened_counters two_files ''a'' = \<lparr>lines = 1, words = 1, chars = 3, errors = 0, bytes = 3\<rparr>"
    by (simp add: opened_counters_def counters_of_def two_files_def count_def new_counter_def step_rule rule_defs)
  have b: "opened_counters two_files ''b'' = \<lparr>lines = 0, words = 2, chars = 5, errors = 2, bytes = 6\<rparr>"
    by (simp add: opened_counters_def counters_of_def two_files_def count_def new_counter_def step_rule rule_defs)
  have "main ?cl [] two_files =
     \<lparr>stdout = report (effective_flags ?cl) (opened_counters two_files ''a'') ''a''
              @ report (effective_flags ?cl) (opened_counters two_files ''b'') ''b''
              @ report (effective_flags ?cl)
                  (sum_counters [opened_counters two_files ''a'', opened_counters two_files ''b'']) ''total'',
      halted = None\<rparr>"
    using totals_are_sums [OF op, of "[]"] by simp
  then show ?thesis
    unfolding fl a b
    by (simp add: sum_counters_def report_def sprintf_7d_def decimal.simps digit_def)
       (simp add: eval_nat_numeral)
qed

section \<open>Read errors\<close>

lemmas run_simps = main_def NArg_def NFlag_def parsed_flags_def flag_value_def count_def
  new_counter_def report_def sprintf_7d_def decimal.simps digit_def step_rule rule_defs Let_def

text \<open>
  Claim C9 does not hold of the code. \<^verbatim>\<open>count\<close> leaves its loop when \<^verbatim>\<open>nr == 0\<close>,
  before it looks at the error, and Go's \<^verbatim>\<open>Read\<close> never returns a negative count, so
  the branch that reports a read error and exits with status 1 is never taken. A read
  that fails after the first chunk, or the first read of a directory, ends the source
  like its end would: the counts so far are printed as final and \<^verbatim>\<open>main\<close> returns
  normally. Whatever its reads return, \<^verbatim>\<open>count\<close> returns normally.
\<close>

theorem read_error_taken_as_end:
  "main (no_flags [''f'']) [] failing_read =
     \<lparr>stdout = ''      1      1      3 f'' @ [newline], halted = None\<rparr>
   \<and> main (no_flags [''d'']) [] directory =
     \<lparr>stdout = ''      0      0      0 d'' @ [newline], halted = None\<rparr>
   \<and> (\<exists>c. count n \<lparr>fname = nm, reads = rs\<rparr> = Inr c)"
proof -
  have "main (no_flags [''f'']) [] failing_read =
     \<lparr>stdout = ''      1      1      3 f'' @ [newline], halted = None\<rparr>
   \<and> main (no_flags [''d'']) [] directory =
     \<lparr>stdout = ''      0      0      0 d'' @ [newline], halted = None\<rparr>"
    by (simp add: no_flags_def failing_read_def directory_def run_simps)
       (simp add: eval_nat_numeral)
  then show ?thesis using count_returns [of n nm rs] by blast
qed

section \<open>Default fields\<close>

text \<open>
  Claim C10. When the command line gives none of the five flags, the run is the one
  of \<^verbatim>\<open>-l -w -c\<close>: every report line holds the fields lines, words and characters, in
  this order, before the name. The counters of bad sequences and of bytes are computed
  all the same (\<^verbatim>\<open>count\<close> does not look at the flags) and are not printed; given
  \<^verbatim>\<open>-e -b\<close>, the same two counters of the same count are what is printed.
\<close>

theorem default_fields:
  "main (no_flags as) stdin fs
     = main \<lparr>lopt = Some True, wopt = Some True, copt = Some True, eopt = None, bopt = None, args = as\<rparr> stdin fs
   \<and> effective_flags (no_flags as) = \<lparr>lflag = True, wflag = True, cflag = True, eflag = False, bflag = False\<rparr>
   \<and> report (effective_flags (no_flags as)) c nm
     = sprintf_7d (lines c) @ sprintf_7d (words c) @ sprintf_7d (chars c) @ '' '' @ nm @ [newline]
   \<and> main (no_flags []) stdin fs
     = \<lparr>stdout = sprintf_7d (lines (counters_of ''/dev/stdin'' stdin))
                @ sprintf_7d (words (counters_of ''/dev/stdin'' stdin))
                @ sprintf_7d (chars (counters_of ''/dev/stdin'' stdin)) @ '' '' @ [newline],
        halted = None\<rparr>
   \<and> main \<lparr>lopt = None, wopt = None, copt = None, eopt = Some True, bopt = Some True, args = []\<rparr> stdin fs
     = \<lparr>stdout = sprintf_7d (errors (counters_of ''/dev/stdin'' stdin))
                @ sprintf_7d (bytes (counters_of ''/dev/stdin'' stdin)) @ '' '' @ [newline],
        halted = None\<rparr>"
proof -
  have fl: "effective_flags (no_flags xs) = \<lparr>lflag = True, wflag = True, cflag = True, eflag = False, bflag = False\<rparr>"
    for xs
    by (simp add: effective_flags_def no_flags_def NFlag_def parsed_flags_def flag_value_def)
  have same: "main (no_flags as) stdin fs
     = main \<lparr>lopt = Some True, wopt = Some True, copt = Some True, eopt = None, bopt = None, args = as\<rparr> stdin fs"
    by (simp add: main_def no_flags_def NFlag_def NArg_def parsed_flags_def flag_value_def Let_def
          del: files_loop.simps not_None_eq split: sum.splits prod.splits)
  have rep: "report (effective_flags (no_flags as)) c nm
     = sprintf_7d (lines c) @ sprintf_7d (words c) @ sprintf_7d (chars c) @ '' '' @ nm @ [newline]"
    unfolding fl by (simp add: report_def)
  have none: "\<forall>a\<in>set (args (no_flags [])). \<exists>rs. fs a = Inr rs" by (simp add: no_flags_def)
  have std: "main (no_flags []) stdin fs
     = \<lparr>stdout = sprintf_7d (lines (counters_of ''/dev/stdin'' stdin))
                @ sprintf_7d (words (counters_of ''/dev/stdin'' stdin))
                @ sprintf_7d (chars (counters_of ''/dev/stdin'' stdin)) @ '' '' @ [newline],
        halted = None\<rparr>"
    using main_ok [OF none, of stdin] fl [of "[]"] by (simp add: report_def no_flags_def)
  let ?eb = "\<lparr>lopt = None, wopt = None, copt = None, eopt = Some True, bopt = Some True, args = []\<rparr>"
  have none': "\<forall>a\<in>set (args ?eb). \<exists>rs. fs a = Inr rs" by simp
  have fl': "effective_flags ?eb = \<lparr>lflag = False, wflag = False, cflag = False, eflag = True, bflag = True\<rparr>"
    by (simp add: effective_flags_def NFlag_def parsed_flags_def flag_value_def del: not_None_eq)
  have eb: "main ?eb stdin fs
     = \<lparr>stdout = sprintf_7d (errors (counters_of ''/dev/stdin'' stdin))
                @ sprintf_7d (bytes (counters_of ''/dev/stdin'' stdin)) @ '' '' @ [newline],
        halted = None\<rparr>"
    using main_ok [OF none', of stdin] fl' by (simp add: report_def)
  show ?thesis using same fl rep std eb by blast
qed

end
